theory Spec2Isabelle
  imports Main "HOL-Library.Product_Lexorder" "HOL-Library.Sublist"
begin

section \<open>JavaScript \<open>Date\<close> values in local civil time\<close>

text \<open>
  ganttTable.js works on JavaScript \<open>Date\<close> objects and reads them only through the
  local-time getters \<open>getFullYear\<close>, \<open>getMonth\<close> (0..11), \<open>getDate\<close> and \<open>getDay\<close>,
  and through the relational operators, which compare the time values.
  A \<open>Date\<close> is modelled by its local civil fields: year, month index, day of the month
  and the milliseconds elapsed since local midnight. The time value of two such dates
  is ordered as the tuples of these fields are ordered lexicographically
  (the map from local civil time to the time value is monotone).
\<close>

record jsdate =
  year :: int
  month :: nat
  date :: nat
  msec :: int

type_synonym timevalue = "int \<times> nat \<times> nat \<times> int"

definition tv :: "jsdate \<Rightarrow> timevalue" where
  "tv d = (year d, month d, date d, msec d)"

text \<open>The calendar day of a \<open>Date\<close>: the time of day dropped.\<close>

type_synonym calday = "int \<times> nat \<times> nat"

definition day_of :: "jsdate \<Rightarrow> calday" where
  "day_of d = (year d, month d, date d)"

subsection \<open>The Gregorian calendar of the \<open>Date\<close> constructor\<close>

definition leap :: "int \<Rightarrow> bool" where
  "leap y = (y mod 4 = 0 \<and> (y mod 100 \<noteq> 0 \<or> y mod 400 = 0))"

text \<open>Length of month \<open>m\<close> (0 = January) of year \<open>y\<close>.\<close>

definition month_len :: "int \<Rightarrow> nat \<Rightarrow> nat" where
  "month_len y m =
     (if m = 1 then (if leap y then 29 else 28)
      else if m = 3 \<or> m = 5 \<or> m = 8 \<or> m = 10 then 30
      else 31)"

text \<open>
  \<open>new Date(year, monthIndex, day, ...)\<close> first maps a year argument between 0 and 99
  to 1900 + year (ECMAScript \<open>MakeFullYear\<close>), then carries a month index outside 0..11
  into the year, then carries a day outside the month into the neighbouring months
  (ECMAScript \<open>MakeDay\<close>), so that day 0 is the last day of the previous month.
\<close>

definition makeFullYear :: "int \<Rightarrow> int" where
  "makeFullYear y = (if 0 \<le> y \<and> y \<le> 99 then 1900 + y else y)"

function dayNorm :: "int \<Rightarrow> nat \<Rightarrow> int \<Rightarrow> int \<times> nat \<times> nat" where
  "dayNorm y m d =
     (if d < 1 then
        (if m = 0 then dayNorm (y - 1) 11 (d + int (month_len (y - 1) 11))
         else dayNorm y (m - 1) (d + int (month_len y (m - 1))))
      else if int (month_len y m) < d then
        (if 11 \<le> m then dayNorm (y + 1) 0 (d - int (month_len y m))
         else dayNorm y (Suc m) (d - int (month_len y m)))
      else (y, m, nat d))"
  by pat_completeness auto
termination
  by (relation "measures [\<lambda>(y, m, d). if d < 1 then 1 else 0,
                          \<lambda>(y, m, d). if d < 1 then nat (1 - d) else nat d]")
     (auto simp: month_len_def)

declare dayNorm.simps [simp del]

text \<open>\<open>mkDate y mo d t\<close> is \<open>new Date(y, mo, d, ...)\<close> with \<open>t\<close> the milliseconds of the
  time-of-day arguments (0 when they are omitted).\<close>

definition mkDate :: "int \<Rightarrow> int \<Rightarrow> int \<Rightarrow> int \<Rightarrow> jsdate" where
  "mkDate y mo d t =
     (case dayNorm (makeFullYear y + mo div 12) (nat (mo mod 12)) d of
        (yy, mm, dd) \<Rightarrow> \<lparr>year = yy, month = mm, date = dd, msec = t\<rparr>)"

text \<open>The time of day \<open>h:mi:s.ms\<close> in milliseconds.\<close>

definition timeOfDay :: "int \<Rightarrow> int \<Rightarrow> int \<Rightarrow> int \<Rightarrow> int" where
  "timeOfDay h mi s ms = ((h * 60 + mi) * 60 + s) * 1000 + ms"

text \<open>\<open>getDay\<close>: the day of the week, 0 = Sunday, from the number of days since
  1970-01-01 (a Thursday).\<close>

definition daysFromCivil :: "int \<Rightarrow> nat \<Rightarrow> nat \<Rightarrow> int" where
  "daysFromCivil y m d =
     (let y' = (if m \<le> 1 then y - 1 else y);
          era = y' div 400;
          yoe = y' - era * 400;
          mp = (int m + 10) mod 12;
          doy = (153 * mp + 2) div 5 + int d - 1;
          doe = yoe * 365 + yoe div 4 - yoe div 100 + doy
      in era * 146097 + doe - 719468)"

definition getDay :: "jsdate \<Rightarrow> nat" where
  "getDay d = nat ((daysFromCivil (year d) (month d) (date d) + 4) mod 7)"

subsection \<open>The date helpers of ganttTable.js\<close>

text \<open>
  \<open>parseISO\<close> is \<open>new Date(dateStr + "T00:00:00")\<close>; \<open>None\<close> is the invalid date (time
  value NaN). ECMAScript fixes what \<open>Date.parse\<close> gives on its date-time string format:
  a year of four digits, or of six digits with a sign (\<open>-000000\<close> excluded), then
  optionally \<open>-MM\<close> (01 to 12) and \<open>-DD\<close> (01 to 31), the missing fields being 01; with
  the time \<open>T00:00:00\<close> and no offset the string names local midnight of that day.
  \<open>iso_fields\<close> reads the year, month and day of such a string.
\<close>

definition digit :: "char \<Rightarrow> nat option" where
  "digit c = (let n = (of_char c :: nat) in if 48 \<le> n \<and> n \<le> 57 then Some (n - 48) else None)"

fun number :: "nat \<Rightarrow> string \<Rightarrow> nat option" where
  "number acc [] = Some acc"
| "number acc (c # cs) =
     (case digit c of None \<Rightarrow> None | Some n \<Rightarrow> number (acc * 10 + n) cs)"

text \<open>The year at the head of the string, with the rest of the string.\<close>

definition year_part :: "string \<Rightarrow> (int \<times> string) option" where
  "year_part s =
     (case s of
        [] \<Rightarrow> None
      | c # r \<Rightarrow>
          if c = CHR ''+'' then
            (if 6 \<le> length r
             then (case number 0 (take 6 r) of None \<Rightarrow> None | Some y \<Rightarrow> Some (int y, drop 6 r))
             else None)
          else if c = CHR ''-'' then
            (if 6 \<le> length r
             then (case number 0 (take 6 r) of
                     None \<Rightarrow> None
                   | Some y \<Rightarrow> if y = 0 then None else Some (- int y, drop 6 r))
             else None)
          else
            (if 4 \<le> length s
             then (case number 0 (take 4 s) of None \<Rightarrow> None | Some y \<Rightarrow> Some (int y, drop 4 s))
             else None))"

text \<open>A hyphen and two digits at the head of the string, with the rest of the string.\<close>

definition field2 :: "string \<Rightarrow> (nat \<times> string) option" where
  "field2 s =
     (case s of
        h # a # b # r \<Rightarrow>
          if h = CHR ''-'' then (case number 0 [a, b] of None \<Rightarrow> None | Some n \<Rightarrow> Some (n, r))
          else None
      | _ \<Rightarrow> None)"

definition iso_fields :: "string \<Rightarrow> (int \<times> nat \<times> nat) option" where
  "iso_fields s =
     (case year_part s of
        None \<Rightarrow> None
      | Some (y, r1) \<Rightarrow>
          if r1 = [] then Some (y, 1, 1)
          else
            (case field2 r1 of
               None \<Rightarrow> None
             | Some (mo, r2) \<Rightarrow>
                 if mo < 1 \<or> 12 < mo then None
                 else if r2 = [] then Some (y, mo, 1)
                 else
                   (case field2 r2 of
                      None \<Rightarrow> None
                    | Some (d, r3) \<Rightarrow>
                        if r3 = [] \<and> 1 \<le> d \<and> d \<le> 31 then Some (y, mo, d) else None)))"

text \<open>
  \<open>iso_date\<close> is the Date every engine gives: the string is in the format, its day
  exists in its month, and its year lies from -271820 to 275759, so that the Date and
  every Date the program builds from it are inside the range of time values.
\<close>

definition iso_date :: "string \<Rightarrow> jsdate option" where
  "iso_date s =
     (case iso_fields s of
        None \<Rightarrow> None
      | Some (y, mo, d) \<Rightarrow>
          if - 271820 \<le> y \<and> y \<le> 275759 \<and> d \<le> month_len y (mo - 1)
          then Some \<lparr>year = y, month = mo - 1, date = d, msec = 0\<rparr>
          else None)"

text \<open>
  On every other string the result is left to the engine: whether a day beyond the
  month's length is carried into the next month or rejected, which years near the ends
  of the range are accepted, and what the implementation's own formats read. The engine
  is a parameter of the model: its answer to the string \<open>dateStr + "T00:00:00"\<close>.
  \<open>asDate\<close> reads the answer as the Date with these local components, carrying a month
  index, a day or a time of day outside its range; a well-formed answer is unchanged.
  The Dates of the model are not bounded: the model follows the program as long as the
  Dates built from an answer stay inside the range of time values, as those built from
  the strings \<open>iso_date\<close> reads do.
\<close>

type_synonym engine = "string \<Rightarrow> jsdate option"

definition asDate :: "jsdate \<Rightarrow> jsdate" where
  "asDate d =
     (case dayNorm (year d + int (month d) div 12) (month d mod 12)
             (int (date d) + msec d div 86400000) of
        (yy, mm, dd) \<Rightarrow> \<lparr>year = yy, month = mm, date = dd, msec = msec d mod 86400000\<rparr>)"

definition parseISO :: "engine \<Rightarrow> string \<Rightarrow> jsdate option" where
  "parseISO eng dateStr =
     (case iso_date dateStr of
        Some d \<Rightarrow> Some d
      | None \<Rightarrow> map_option asDate (eng (dateStr @ ''T00:00:00'')))"

definition startOfMonth :: "jsdate \<Rightarrow> jsdate" where
  "startOfMonth d = mkDate (year d) (int (month d)) 1 0"

definition endOfMonth :: "jsdate \<Rightarrow> jsdate" where
  "endOfMonth d = mkDate (year d) (int (month d) + 1) 0 (timeOfDay 23 59 59 999)"

definition daysInMonth :: "int \<Rightarrow> int \<Rightarrow> nat" where
  "daysInMonth y monthIdx = date (mkDate y (monthIdx + 1) 0 0)"

definition addMonths :: "jsdate \<Rightarrow> int \<Rightarrow> jsdate" where
  "addMonths d n = mkDate (year d) (int (month d) + n) 1 0"

definition sameMonth :: "jsdate \<Rightarrow> jsdate \<Rightarrow> bool" where
  "sameMonth a b = (year a = year b \<and> month a = month b)"

text \<open>\<open>formatMonthFR\<close> prints the month name and the year, \<open>formatDDMM\<close> the day and the
  month number on two digits each; the model keeps the numbers they print.\<close>

definition formatMonthFR :: "jsdate \<Rightarrow> int \<times> nat" where
  "formatMonthFR d = (year d, month d)"

definition formatDDMM :: "jsdate \<Rightarrow> nat \<times> nat" where
  "formatDDMM d = (date d, month d + 1)"

definition isWeekend :: "jsdate \<Rightarrow> bool" where
  "isWeekend d = (let dow = getDay d in dow = 0 \<or> dow = 6)"

definition clampIntervalToMonth ::
  "jsdate \<Rightarrow> jsdate \<Rightarrow> jsdate \<Rightarrow> jsdate \<Rightarrow> (jsdate \<times> jsdate) option" where
  "clampIntervalToMonth taskStart taskEnd monthStart monthEnd =
     (let s = (if tv taskStart > tv monthStart then taskStart else monthStart);
          e = (if tv taskEnd < tv monthEnd then taskEnd else monthEnd)
      in if tv s \<le> tv e then Some (s, e) else None)"

section \<open>Input, output and the document\<close>

text \<open>
  A caller-supplied task \<open>{label, start, end, color}\<close>: each property is a string or is
  missing (\<open>None\<close>). An entry of the task array may itself be \<open>null\<close> (\<open>None\<close>).
  The record fields are \<open>r_label\<close>, \<open>r_start\<close>, \<open>r_end\<close>, \<open>r_color\<close>.
\<close>

record raw_task =
  r_label :: "string option"
  r_start :: "string option"
  r_end :: "string option"
  r_color :: "string option"

text \<open>A normalised task (an element of \<open>norm\<close>): \<open>{label, start, end, color}\<close> with
  the dates parsed.\<close>

record norm_task =
  n_label :: string
  n_start :: jsdate
  n_end :: jsdate
  n_color :: string

text \<open>The \<open>container\<close> option: left out (then \<open>document.body\<close>), a CSS selector, or an
  element, which may be \<open>null\<close>. Elements that can serve as mount points are named by
  numbers.\<close>

datatype container = Default | Selector string | Element "nat option"

record options =
  container :: container
  injectStyles :: "bool option"
  shadeWeekends :: "bool option"
  defaultColor :: "string option"

text \<open>The errors thrown: \<open>"Container introuvable."\<close>, the no-task message, the
  invalid-task message, which prints the index, the invalid-dates message, which prints
  the label, and the \<open>SyntaxError\<close> of \<open>querySelector\<close> on a malformed selector.\<close>

datatype error =
    ContainerNotFound
  | NoTasks
  | InvalidTask nat
  | InvalidDates string
  | SelectorSyntaxError

text \<open>What \<open>document.querySelector\<close> answers.\<close>

datatype qresult = QSyntaxError | QNull | QElement nat

text \<open>The rendered tree. A \<open>td\<close> of a task row has the class \<open>gt-we\<close> or none and holds
  a \<open>span.gt-bar\<close> of some background colour or nothing. A header cell has the class
  and a text. A task row begins with the cell
  \<open>label (dd/mm\<rightarrow>dd/mm)\<close>, kept as the label and the two formatted dates.\<close>

record td_cell =
  td_we :: bool
  td_bar :: "string option"

record gt_row =
  row_label :: "string \<times> (nat \<times> nat) \<times> (nat \<times> nat)"
  row_cells :: "td_cell list"

record gt_month =
  heading :: "int \<times> nat"
  days_var :: nat
  tr1 :: "(bool \<times> nat) list"
  tr2 :: "(bool \<times> string) list"
  tbody :: "gt_row list"

type_synonym gt_wrap = "gt_month list"

text \<open>The document: what \<open>querySelector\<close> answers, \<open>document.body\<close>, the ids of the
  elements present, the \<open>style\<close> elements appended to \<open>head\<close> (by id), and the trees
  appended to each mount point.\<close>

record document =
  querySelector :: "string \<Rightarrow> qresult"
  body :: "nat option"
  ids :: "string list"
  head :: "string list"
  children :: "nat \<Rightarrow> gt_wrap list"

definition injectDefaultStyles :: "document \<Rightarrow> document" where
  "injectDefaultStyles doc =
     (if ''gantt-table-styles'' \<in> set (ids doc) then doc
      else doc\<lparr>ids := ids doc @ [''gantt-table-styles''],
               head := head doc @ [''gantt-table-styles'']\<rparr>)"

definition appendChild :: "document \<Rightarrow> nat \<Rightarrow> gt_wrap \<Rightarrow> document" where
  "appendChild doc mount root =
     doc\<lparr>children := (children doc)(mount := children doc mount @ [root])\<rparr>"

text \<open>\<open>typeof container === "string" ? document.querySelector(container) : container\<close>.\<close>

definition resolve_mount :: "document \<Rightarrow> container \<Rightarrow> error + nat option" where
  "resolve_mount doc c =
     (case c of
        Default \<Rightarrow> Inr (body doc)
      | Selector sel \<Rightarrow>
          (case querySelector doc sel of
             QSyntaxError \<Rightarrow> Inl SelectorSyntaxError
           | QNull \<Rightarrow> Inr None
           | QElement n \<Rightarrow> Inr (Some n))
      | Element e \<Rightarrow> Inr e)"

section \<open>\<open>renderGanttAsTables\<close>\<close>

subsection \<open>Normalising the tasks\<close>

text \<open>The callback of \<open>tasks.map\<close> at index \<open>i\<close>. A missing or empty string is falsy.\<close>

definition normalize_task ::
  "engine \<Rightarrow> string \<Rightarrow> nat \<Rightarrow> raw_task option \<Rightarrow> error + norm_task" where
  "normalize_task eng dc i t =
     (case t of
        None \<Rightarrow> Inl (InvalidTask i)
      | Some r \<Rightarrow>
          (case (r_label r, r_start r, r_end r) of
             (Some l, Some st, Some en) \<Rightarrow>
               if l = [] \<or> st = [] \<or> en = [] then Inl (InvalidTask i)
               else
                 (case (parseISO eng st, parseISO eng en) of
                    (Some s, Some e) \<Rightarrow>
                      if tv s > tv e then Inl (InvalidDates l)
                      else Inr \<lparr>n_label = l, n_start = s, n_end = e,
                                n_color = (case r_color r of
                                             None \<Rightarrow> dc
                                           | Some c \<Rightarrow> if c = [] then dc else c)\<rparr>
                  | _ \<Rightarrow> Inl (InvalidDates l))
           | _ \<Rightarrow> Inl (InvalidTask i)))"

text \<open>\<open>tasks.map\<close>: left to right from index \<open>i\<close>, the first throw ends it.\<close>

fun normalize ::
  "engine \<Rightarrow> string \<Rightarrow> nat \<Rightarrow> raw_task option list \<Rightarrow> error + norm_task list" where
  "normalize eng dc i [] = Inr []"
| "normalize eng dc i (t # ts) =
     (case normalize_task eng dc i t of
        Inl e \<Rightarrow> Inl e
      | Inr n \<Rightarrow>
          (case normalize eng dc (Suc i) ts of
             Inl e \<Rightarrow> Inl e
           | Inr ns \<Rightarrow> Inr (n # ns)))"

subsection \<open>Global bounds\<close>

fun bounds :: "jsdate \<times> jsdate \<Rightarrow> norm_task list \<Rightarrow> jsdate \<times> jsdate" where
  "bounds (minStart, maxEnd) [] = (minStart, maxEnd)"
| "bounds (minStart, maxEnd) (t # ts) =
     bounds (if tv (n_start t) < tv minStart then n_start t else minStart,
             if tv (n_end t) > tv maxEnd then n_end t else maxEnd) ts"

subsection \<open>One month\<close>

text \<open>The header cells and the cells of a task row, for the days \<open>1..dim\<close>.\<close>

definition head_days :: "bool \<Rightarrow> jsdate \<Rightarrow> nat \<Rightarrow> (bool \<times> nat) list" where
  "head_days shade monthStart dim =
     map (\<lambda>d. let cur = mkDate (year monthStart) (int (month monthStart)) (int d) 0
              in (shade \<and> isWeekend cur, d)) [1..<Suc dim]"

definition dow :: "string list" where
  "dow = [''Di'', ''Lu'', ''Ma'', ''Me'', ''Je'', ''Ve'', ''Sa'']"

definition head_dow :: "bool \<Rightarrow> jsdate \<Rightarrow> nat \<Rightarrow> (bool \<times> string) list" where
  "head_dow shade monthStart dim =
     map (\<lambda>d. let cur = mkDate (year monthStart) (int (month monthStart)) (int d) 0
              in (shade \<and> isWeekend cur, dow ! getDay cur)) [1..<Suc dim]"

definition task_cells ::
  "bool \<Rightarrow> string \<Rightarrow> jsdate \<Rightarrow> nat \<Rightarrow> jsdate \<Rightarrow> jsdate \<Rightarrow> td_cell list" where
  "task_cells shade col monthStart dim segStart segEnd =
     map (\<lambda>d. let cur = mkDate (year monthStart) (int (month monthStart)) (int d) 0;
                  inRange =
                    (tv cur \<ge> tv (mkDate (year segStart) (int (month segStart))
                                     (int (date segStart)) 0) \<and>
                     tv cur \<le> tv (mkDate (year segEnd) (int (month segEnd))
                                     (int (date segEnd)) 0))
              in \<lparr>td_we = shade \<and> isWeekend cur,
                  td_bar = (if inRange then Some col else None)\<rparr>) [1..<Suc dim]"

text \<open>The row of one task that intersects the month.\<close>

definition task_row :: "bool \<Rightarrow> jsdate \<Rightarrow> nat \<Rightarrow> norm_task \<Rightarrow> jsdate \<Rightarrow> jsdate \<Rightarrow> gt_row" where
  "task_row shade monthStart dim t segStart segEnd =
     \<lparr>row_label = (n_label t, formatDDMM (n_start t), formatDDMM (n_end t)),
      row_cells = task_cells shade (n_color t) monthStart dim segStart segEnd\<rparr>"

text \<open>\<open>for (const t of norm)\<close>: the rows appended to \<open>tbody\<close>.\<close>

fun task_rows ::
  "bool \<Rightarrow> jsdate \<Rightarrow> jsdate \<Rightarrow> nat \<Rightarrow> norm_task list \<Rightarrow> gt_row list \<Rightarrow> gt_row list" where
  "task_rows shade monthStart monthEnd dim [] tb = tb"
| "task_rows shade monthStart monthEnd dim (t # ts) tb =
     (case clampIntervalToMonth (n_start t) (n_end t) monthStart monthEnd of
        None \<Rightarrow> task_rows shade monthStart monthEnd dim ts tb
      | Some (segStart, segEnd) \<Rightarrow>
          task_rows shade monthStart monthEnd dim ts
            (tb @ [task_row shade monthStart dim t segStart segEnd]))"

text \<open>The body of the month loop at \<open>m\<close>: the section is appended to the root only if
  its \<open>tbody\<close> has a row.\<close>

definition month_step :: "bool \<Rightarrow> norm_task list \<Rightarrow> jsdate \<Rightarrow> gt_wrap \<Rightarrow> gt_wrap" where
  "month_step shade norm m root =
     (let monthStart = startOfMonth m;
          monthEnd = endOfMonth m;
          dim = daysInMonth (year monthStart) (int (month monthStart));
          tb = task_rows shade monthStart monthEnd dim norm [];
          section = \<lparr>heading = formatMonthFR monthStart, days_var = dim,
                     tr1 = head_days shade monthStart dim,
                     tr2 = head_dow shade monthStart dim,
                     tbody = tb\<rparr>
      in if length tb > 0 then root @ [section] else root)"

subsection \<open>The month loop\<close>

text \<open>\<open>for (m = new Date(firstMonth); m <= lastMonth; m = addMonths(m, 1))\<close>, with the
  loop body a parameter acting on an accumulator.\<close>

definition month_index :: "jsdate \<Rightarrow> int" where
  "month_index d = year d * 12 + int (min (month d) 11)"

function for_months :: "(jsdate \<Rightarrow> 'a \<Rightarrow> 'a) \<Rightarrow> jsdate \<Rightarrow> jsdate \<Rightarrow> 'a \<Rightarrow> 'a" where
  "for_months step m lastMonth acc =
     (if tv m \<le> tv lastMonth then for_months step (addMonths m 1) lastMonth (step m acc)
      else acc)"
  by pat_completeness auto
termination
proof (relation "measure (\<lambda>(step, m, lastMonth, acc). nat (month_index lastMonth + 1 - month_index m))")
  show "wf (measure (\<lambda>(step, m, lastMonth, acc). nat (month_index lastMonth + 1 - month_index m)))"
    by simp
next
  fix step :: "jsdate \<Rightarrow> 'a \<Rightarrow> 'a" and m lastMonth :: jsdate and acc :: 'a
  assume le: "tv m \<le> tv lastMonth"
  have first: "dayNorm y k 1 = (y, k, 1)" for y k
    by (simp add: dayNorm.simps [of y k 1] month_len_def)
  have next_month:
    "addMonths m 1 = \<lparr>year = makeFullYear (year m) + (int (month m) + 1) div 12,
                      month = nat ((int (month m) + 1) mod 12), date = 1, msec = 0\<rparr>"
    by (simp add: addMonths_def mkDate_def first)
  have "year m \<le> makeFullYear (year m)"
    by (simp add: makeFullYear_def)
  moreover have "(int (month m) + 1) mod 12 < 12" "0 \<le> (int (month m) + 1) mod 12"
    by simp_all
  moreover have "int (month m) + 1 = 12 * ((int (month m) + 1) div 12) + (int (month m) + 1) mod 12"
    by simp
  ultimately have up: "month_index m < month_index (addMonths m 1)"
    unfolding next_month month_index_def by (simp add: min_def) linarith
  from le have "month_index m \<le> month_index lastMonth"
    by (auto simp: tv_def month_index_def min_def)
  with up
  show "((step, addMonths m 1, lastMonth, step m acc), (step, m, lastMonth, acc))
          \<in> measure (\<lambda>(step, m, lastMonth, acc). nat (month_index lastMonth + 1 - month_index m))"
    by simp
qed

declare for_months.simps [simp del]

subsection \<open>The whole function\<close>

text \<open>The result is the root element returned, or the error thrown, with the document
  as the call leaves it. \<open>tasks\<close> is an array, so \<open>Array.isArray(tasks)\<close> holds. After the
  length test \<open>norm\<close> has a first element; the case of an empty \<open>norm\<close> is never
  reached and only completes the case distinction.\<close>

definition renderGanttAsTables ::
  "engine \<Rightarrow> document \<Rightarrow> raw_task option list \<Rightarrow> options \<Rightarrow> (error + gt_wrap) \<times> document" where
  "renderGanttAsTables eng doc tasks opts =
     (let doInjectStyles = (case injectStyles opts of None \<Rightarrow> True | Some b \<Rightarrow> b);
          shade = (case shadeWeekends opts of None \<Rightarrow> True | Some b \<Rightarrow> b);
          dc = (case defaultColor opts of None \<Rightarrow> ''#7aa7ff'' | Some c \<Rightarrow> c)
      in case resolve_mount doc (container opts) of
           Inl e \<Rightarrow> (Inl e, doc)
         | Inr None \<Rightarrow> (Inl ContainerNotFound, doc)
         | Inr (Some mount) \<Rightarrow>
             if length tasks = 0 then (Inl NoTasks, doc)
             else
               (case normalize eng dc 0 tasks of
                  Inl e \<Rightarrow> (Inl e, doc)
                | Inr [] \<Rightarrow> (Inl NoTasks, doc)
                | Inr (t0 # ts) \<Rightarrow>
                    (let (minStart, maxEnd) = bounds (n_start t0, n_end t0) (t0 # ts);
                         firstMonth = startOfMonth minStart;
                         lastMonth = startOfMonth maxEnd;
                         doc1 = (if doInjectStyles then injectDefaultStyles doc else doc);
                         root = for_months (month_step shade (t0 # ts)) firstMonth lastMonth []
                     in (Inr root, appendChild doc1 mount root))))"

section \<open>Notions of the specification\<close>

text \<open>A task is malformed when it is absent, when its label, start or end is missing
  (or empty), when a date does not parse (on the engine at hand), or when its start is
  after its end.\<close>

definition missing :: "string option \<Rightarrow> bool" where
  "missing x = (x = None \<or> x = Some [])"

definition missing_field :: "raw_task option \<Rightarrow> bool" where
  "missing_field t =
     (case t of None \<Rightarrow> True
      | Some r \<Rightarrow> missing (r_label r) \<or> missing (r_start r) \<or> missing (r_end r))"

definition bad_dates :: "engine \<Rightarrow> raw_task option \<Rightarrow> bool" where
  "bad_dates eng t =
     (case t of None \<Rightarrow> False
      | Some r \<Rightarrow>
          (case (r_start r, r_end r) of
             (Some st, Some en) \<Rightarrow>
               (case (parseISO eng st, parseISO eng en) of
                  (Some s, Some e) \<Rightarrow> tv s > tv e
                | _ \<Rightarrow> True)
           | _ \<Rightarrow> False))"

definition malformed :: "engine \<Rightarrow> raw_task option \<Rightarrow> bool" where
  "malformed eng t = (missing_field t \<or> bad_dates eng t)"

text \<open>The label of a task, empty when there is none.\<close>

definition label_of :: "raw_task option \<Rightarrow> string" where
  "label_of t = (case t of None \<Rightarrow> [] | Some r \<Rightarrow> (case r_label r of None \<Rightarrow> [] | Some l \<Rightarrow> l))"

text \<open>The error thrown for the malformed task at index \<open>i\<close>: a missing field is reported
  with the index, a date problem with the label.\<close>

definition task_error :: "nat \<Rightarrow> raw_task option \<Rightarrow> error" where
  "task_error i t = (if missing_field t then InvalidTask i else InvalidDates (label_of t))"

text \<open>The root built from the normalised tasks, and the months the loop visits: the
  same loop with a body that records \<open>m\<close>.\<close>

definition grids :: "bool \<Rightarrow> norm_task list \<Rightarrow> gt_wrap" where
  "grids shade norm =
     (case norm of
        [] \<Rightarrow> []
      | t0 # ts \<Rightarrow>
          (let (minStart, maxEnd) = bounds (n_start t0, n_end t0) norm
           in for_months (month_step shade norm)
                (startOfMonth minStart) (startOfMonth maxEnd) []))"

definition months_visited :: "norm_task list \<Rightarrow> jsdate list" where
  "months_visited norm =
     (case norm of
        [] \<Rightarrow> []
      | t0 # ts \<Rightarrow>
          (let (minStart, maxEnd) = bounds (n_start t0, n_end t0) norm
           in for_months (\<lambda>m acc. acc @ [m])
                (startOfMonth minStart) (startOfMonth maxEnd) []))"

text \<open>The options after the defaults are filled in.\<close>

definition shade_of :: "options \<Rightarrow> bool" where
  "shade_of opts = (case shadeWeekends opts of None \<Rightarrow> True | Some b \<Rightarrow> b)"

definition color_of :: "options \<Rightarrow> string" where
  "color_of opts = (case defaultColor opts of None \<Rightarrow> ''#7aa7ff'' | Some c \<Rightarrow> c)"

text \<open>The row of task \<open>t\<close> in the section of month \<open>m\<close>, if \<open>t\<close> has a clipped segment
  there.\<close>

definition month_row :: "bool \<Rightarrow> jsdate \<Rightarrow> norm_task \<Rightarrow> gt_row option" where
  "month_row shade m t =
     (let monthStart = startOfMonth m;
          monthEnd = endOfMonth m;
          dim = daysInMonth (year monthStart) (int (month monthStart))
      in case clampIntervalToMonth (n_start t) (n_end t) monthStart monthEnd of
           None \<Rightarrow> None
         | Some (segStart, segEnd) \<Rightarrow> Some (task_row shade monthStart dim t segStart segEnd))"

text \<open>A calendar day as \<open>iso_date\<close> yields it: a day of the calendar, at midnight.\<close>

definition valid_day :: "jsdate \<Rightarrow> bool" where
  "valid_day d =
     (month d < 12 \<and> 1 \<le> date d \<and> date d \<le> month_len (year d) (month d) \<and> msec d = 0)"

text \<open>Months counted from January of year 0, and the first day of the month of a given
  count.\<close>

definition month_no :: "jsdate \<Rightarrow> int" where
  "month_no d = year d * 12 + int (month d)"

definition month_start :: "int \<Rightarrow> jsdate" where
  "month_start k = \<lparr>year = k div 12, month = nat (k mod 12), date = 1, msec = 0\<rparr>"

text \<open>What normalising guarantees of a task: the start is not after the end, and both
  are Dates, with a time of day inside the day.\<close>

definition proper_task :: "norm_task \<Rightarrow> bool" where
  "proper_task t =
     (tv (n_start t) \<le> tv (n_end t) \<and>
      0 \<le> msec (n_start t) \<and> msec (n_start t) < 86400000 \<and>
      0 \<le> msec (n_end t) \<and> msec (n_end t) < 86400000)"

text \<open>A task intersects the month \<open>mo\<close> of year \<open>y\<close> when it starts no later than the
  month's last day and ends no earlier than its first day.\<close>

definition in_month :: "int \<times> nat \<Rightarrow> norm_task \<Rightarrow> bool" where
  "in_month h t =
     (case h of (y, mo) \<Rightarrow>
        day_of (n_start t) \<le> (y, mo, month_len y mo) \<and> (y, mo, 1) \<le> day_of (n_end t))"

text \<open>The first cell of the row of a task: its label and its two dates.\<close>

definition row_head :: "norm_task \<Rightarrow> string \<times> (nat \<times> nat) \<times> (nat \<times> nat)" where
  "row_head t = (n_label t, formatDDMM (n_start t), formatDDMM (n_end t))"

text \<open>A task given with two dates that \<open>iso_date\<close> reads, and what it is normalised to:
  two calendar days at midnight, the start not after the end.\<close>

definition iso_task :: "raw_task option \<Rightarrow> bool" where
  "iso_task t =
     (case t of None \<Rightarrow> False
      | Some r \<Rightarrow>
          (case (r_start r, r_end r) of
             (Some st, Some en) \<Rightarrow> iso_date st \<noteq> None \<and> iso_date en \<noteq> None
           | _ \<Rightarrow> False))"

definition valid_task :: "norm_task \<Rightarrow> bool" where
  "valid_task t = (valid_day (n_start t) \<and> valid_day (n_end t) \<and> tv (n_start t) \<le> tv (n_end t))"

text \<open>The section the month loop builds at \<open>m\<close>.\<close>

definition section_of :: "bool \<Rightarrow> norm_task list \<Rightarrow> jsdate \<Rightarrow> gt_month" where
  "section_of shade norm m =
     \<lparr>heading = formatMonthFR (startOfMonth m),
      days_var = daysInMonth (year (startOfMonth m)) (int (month (startOfMonth m))),
      tr1 = head_days shade (startOfMonth m)
              (daysInMonth (year (startOfMonth m)) (int (month (startOfMonth m)))),
      tr2 = head_dow shade (startOfMonth m)
              (daysInMonth (year (startOfMonth m)) (int (month (startOfMonth m)))),
      tbody = List.map_filter (month_row shade m) norm\<rparr>"

text \<open>Day \<open>d\<close> of month \<open>m\<close> of year \<open>y\<close> is marked for task \<open>t\<close> in a root when the
  section headed by that month has the row of \<open>t\<close> and the row's cell of day \<open>d\<close> holds
  a bar.\<close>

definition marked :: "bool \<Rightarrow> gt_wrap \<Rightarrow> norm_task \<Rightarrow> calday \<Rightarrow> bool" where
  "marked shade root t c =
     (case c of (y, m, d) \<Rightarrow>
        \<exists>s\<in>set root. heading s = (y, m) \<and>
          (\<exists>r\<in>set (tbody s).
             month_row shade (month_start (y * 12 + int m)) t = Some r \<and>
             1 \<le> d \<and> d \<le> length (row_cells r) \<and>
             td_bar (row_cells r ! (d - 1)) \<noteq> None))"

section \<open>Sample inputs\<close>

text \<open>A page where the selector \<open>#app\<close> finds element 1 and no other selector finds
  anything; options mounting at \<open>#app\<close> and at \<open>#nope\<close>; tasks with all three fields.\<close>

definition page :: document where
  "page = \<lparr>querySelector = (\<lambda>sel. if sel = ''#app'' then QElement 1 else QNull),
           body = Some 0, ids = [], head = [], children = (\<lambda>_. [])\<rparr>"

definition at_app :: options where
  "at_app = \<lparr>container = Selector ''#app'', injectStyles = None,
             shadeWeekends = None, defaultColor = None\<rparr>"

definition at_nope :: options where
  "at_nope = \<lparr>container = Selector ''#nope'', injectStyles = None,
              shadeWeekends = None, defaultColor = None\<rparr>"

definition task :: "string \<Rightarrow> string \<Rightarrow> string \<Rightarrow> raw_task option" where
  "task l s e = Some \<lparr>r_label = Some l, r_start = Some s, r_end = Some e, r_color = None\<rparr>"

text \<open>An engine that, like V8, carries a day from 01 to 31 beyond the month's length
  into the next month, and rejects every other string that \<open>iso_date\<close> does not read.\<close>

definition lenient_days :: engine where
  "lenient_days str =
     (if 9 \<le> length str \<and> drop (length str - 9) str = ''T00:00:00'' then
        (case iso_fields (take (length str - 9) str) of
           None \<Rightarrow> None
         | Some (y, mo, d) \<Rightarrow>
             if - 271820 \<le> y \<and> y \<le> 275759
             then Some \<lparr>year = y, month = mo - 1, date = d, msec = 0\<rparr>
             else None)
      else None)"

text \<open>Three tasks, the first and the last in September 2025 with the later one first,
  the second in October 2025; and their normalised form.\<close>

definition late_early :: "raw_task option list" where
  "late_early = [task ''Late'' ''2025-09-20'' ''2025-09-25'',
                 task ''Other'' ''2025-10-01'' ''2025-10-05'',
                 task ''Early'' ''2025-09-01'' ''2025-09-05'']"

definition late_early_norm :: "norm_task list" where
  "late_early_norm =
     [\<lparr>n_label = ''Late'', n_start = \<lparr>year = 2025, month = 8, date = 20, msec = 0\<rparr>,
       n_end = \<lparr>year = 2025, month = 8, date = 25, msec = 0\<rparr>, n_color = ''#7aa7ff''\<rparr>,
      \<lparr>n_label = ''Other'', n_start = \<lparr>year = 2025, month = 9, date = 1, msec = 0\<rparr>,
       n_end = \<lparr>year = 2025, month = 9, date = 5, msec = 0\<rparr>, n_color = ''#7aa7ff''\<rparr>,
      \<lparr>n_label = ''Early'', n_start = \<lparr>year = 2025, month = 8, date = 1, msec = 0\<rparr>,
       n_end = \<lparr>year = 2025, month = 8, date = 5, msec = 0\<rparr>, n_color = ''#7aa7ff''\<rparr>]"

text \<open>Two tasks with an idle month (December 2025) between them.\<close>

definition with_gap :: "raw_task option list" where
  "with_gap = [task ''A'' ''2025-10-25'' ''2025-11-05'',
               task ''B'' ''2026-01-10'' ''2026-01-10'']"

definition with_gap_norm :: "norm_task list" where
  "with_gap_norm =
     [\<lparr>n_label = ''A'', n_start = \<lparr>year = 2025, month = 9, date = 25, msec = 0\<rparr>,
       n_end = \<lparr>year = 2025, month = 10, date = 5, msec = 0\<rparr>, n_color = ''#7aa7ff''\<rparr>,
      \<lparr>n_label = ''B'', n_start = \<lparr>year = 2026, month = 0, date = 10, msec = 0\<rparr>,
       n_end = \<lparr>year = 2026, month = 0, date = 10, msec = 0\<rparr>, n_color = ''#7aa7ff''\<rparr>]"

section \<open>Errors are thrown before any output\<close>

text \<open>The equations that evaluate \<open>parseISO\<close> on a string of the date-time format.\<close>

lemmas parse_eval =
  parseISO_def iso_date_def iso_fields_def year_part_def field2_def digit_def month_len_def leap_def

lemma render_unmounted:
  "resolve_mount doc (container opts) = Inl e \<Longrightarrow> renderGanttAsTables eng doc tasks opts = (Inl e, doc)"
  "resolve_mount doc (container opts) = Inr None \<Longrightarrow>
     renderGanttAsTables eng doc tasks opts = (Inl ContainerNotFound, doc)"
  by (simp_all add: renderGanttAsTables_def)

lemma render_mounted:
  "resolve_mount doc (container opts) = Inr (Some mount) \<Longrightarrow>
   renderGanttAsTables eng doc tasks opts =
     (if tasks = [] then (Inl NoTasks, doc)
      else case normalize eng (case defaultColor opts of None \<Rightarrow> ''#7aa7ff'' | Some c \<Rightarrow> c) 0 tasks of
             Inl e \<Rightarrow> (Inl e, doc)
           | Inr [] \<Rightarrow> (Inl NoTasks, doc)
           | Inr (t0 # ts) \<Rightarrow>
               (let root = for_months
                      (month_step (case shadeWeekends opts of None \<Rightarrow> True | Some b \<Rightarrow> b) (t0 # ts))
                      (startOfMonth (fst (bounds (n_start t0, n_end t0) (t0 # ts))))
                      (startOfMonth (snd (bounds (n_start t0, n_end t0) (t0 # ts)))) []
                in (Inr root,
                    appendChild (if (case injectStyles opts of None \<Rightarrow> True | Some b \<Rightarrow> b)
                                 then injectDefaultStyles doc else doc) mount root)))"
  by (simp add: renderGanttAsTables_def Let_def split: prod.splits sum.splits list.splits)

text \<open>
  Claim C10. When the container option is a selector that matches no element, or a null
  element, the call throws the container-not-found error whatever the task list is
  (empty, malformed or valid), and leaves the document as it was.
\<close>

theorem container_checked_first:
  assumes "(\<exists>sel. container opts = Selector sel \<and> querySelector doc sel = QNull)
           \<or> container opts = Element None"
  shows "renderGanttAsTables eng doc tasks opts = (Inl ContainerNotFound, doc)"
  using assms by (auto simp: renderGanttAsTables_def resolve_mount_def)

theorem container_checked_first_witness:
  "renderGanttAsTables lenient_days page [] at_nope = (Inl ContainerNotFound, page)
   \<and> renderGanttAsTables lenient_days page [task ''A'' ''2025-09-10'' ''2025-09-03''] at_nope
       = (Inl ContainerNotFound, page)"
  using container_checked_first [where opts = at_nope and doc = page and eng = lenient_days]
  by (simp add: at_nope_def page_def)

text \<open>
  Claim C5, as stated, fails: with an empty task list and a container that is not found,
  the error thrown is the container error, not the empty-input error.
\<close>

theorem empty_tasks_counterexample:
  "fst (renderGanttAsTables lenient_days page [] at_nope) \<noteq> Inl NoTasks"
  by (simp add: renderGanttAsTables_def resolve_mount_def at_nope_def page_def)

text \<open>
  Claim C5, amended. For the empty task sequence the call always throws and leaves the
  document unchanged; the error is the empty-input error whenever the container resolves
  to an element, and the error of the container check otherwise.
\<close>

theorem empty_tasks_rejected:
  "renderGanttAsTables eng doc [] opts =
     (Inl (case resolve_mount doc (container opts) of
             Inl e \<Rightarrow> e
           | Inr None \<Rightarrow> ContainerNotFound
           | Inr (Some mount) \<Rightarrow> NoTasks), doc)"
  by (simp add: renderGanttAsTables_def split: sum.splits option.splits)

theorem empty_tasks_rejected_witness:
  "renderGanttAsTables lenient_days page [] at_app = (Inl NoTasks, page)"
  using empty_tasks_rejected [where doc = page and opts = at_app and eng = lenient_days]
  by (simp add: resolve_mount_def at_app_def page_def)

lemma normalize_task_ok:
  "\<not> malformed eng t \<Longrightarrow> \<exists>n. normalize_task eng dc i t = Inr n"
  by (auto simp: malformed_def missing_field_def missing_def bad_dates_def normalize_task_def
           split: option.splits prod.splits)

lemma normalize_task_error:
  "malformed eng t \<Longrightarrow> normalize_task eng dc i t = Inl (task_error i t)"
  by (auto simp: malformed_def missing_field_def missing_def bad_dates_def normalize_task_def
                 task_error_def label_of_def
           split: option.splits prod.splits)

lemma normalize_first_malformed:
  "k < length ts \<Longrightarrow> malformed eng (ts ! k) \<Longrightarrow> \<forall>j<k. \<not> malformed eng (ts ! j) \<Longrightarrow>
   normalize eng dc i ts = Inl (task_error (i + k) (ts ! k))"
proof (induction ts arbitrary: i k)
  case Nil
  then show ?case by simp
next
  case (Cons t ts)
  show ?case
  proof (cases k)
    case 0
    with Cons.prems show ?thesis by (simp add: normalize_task_error)
  next
    case (Suc k')
    with Cons.prems have "\<not> malformed eng t" by auto
    then obtain n where n: "normalize_task eng dc i t = Inr n"
      using normalize_task_ok by blast
    have "normalize eng dc (Suc i) ts = Inl (task_error (Suc i + k') (ts ! k'))"
      using Cons.prems Suc by (intro Cons.IH) auto
    with n Suc show ?thesis by simp
  qed
qed

lemma first_malformed:
  assumes "\<exists>t\<in>set ts. malformed eng t"
  shows "\<exists>k<length ts. malformed eng (ts ! k) \<and> (\<forall>j<k. \<not> malformed eng (ts ! j))"
proof -
  from assms obtain n where "n < length ts \<and> malformed eng (ts ! n)"
    by (auto simp: in_set_conv_nth)
  then have "\<exists>k. k < length ts \<and> malformed eng (ts ! k)" by blast
  then obtain k where k: "k < length ts \<and> malformed eng (ts ! k)"
     and least: "\<And>j. j < k \<Longrightarrow> \<not> (j < length ts \<and> malformed eng (ts ! j))"
    using exists_least_iff [of "\<lambda>k. k < length ts \<and> malformed eng (ts ! k)"] by auto
  then show ?thesis by (metis less_trans)
qed

text \<open>
  Claim C2, as stated, fails: the invalid-dates error carries the label only, so it is
  the same whether the offending task is at index 0 or at index 1, and the invalid-task
  error carries the index only, so it is the same for offending tasks labelled \<open>A\<close> and
  \<open>Z\<close>.
\<close>

theorem malformed_task_counterexample:
  "fst (renderGanttAsTables lenient_days page [task ''B'' ''2025-09-10'' ''2025-09-03''] at_app)
     = Inl (InvalidDates ''B'')
   \<and> fst (renderGanttAsTables lenient_days page
            [task ''A'' ''2025-09-03'' ''2025-09-10'', task ''B'' ''2025-09-10'' ''2025-09-03''] at_app)
     = Inl (InvalidDates ''B'')
   \<and> fst (renderGanttAsTables lenient_days page
            [Some \<lparr>r_label = Some ''A'', r_start = None, r_end = Some ''2025-09-10'', r_color = None\<rparr>]
            at_app)
     = Inl (InvalidTask 0)
   \<and> fst (renderGanttAsTables lenient_days page
            [Some \<lparr>r_label = Some ''Z'', r_start = None, r_end = Some ''2025-09-10'', r_color = None\<rparr>]
            at_app)
     = Inl (InvalidTask 0)"
  by (simp add: renderGanttAsTables_def resolve_mount_def at_app_def page_def task_def
        normalize_task_def parse_eval tv_def)

text \<open>
  Claim C2, amended. When the container resolves and the task list contains a malformed
  task, the call throws for the first malformed task, before any month is built: an
  invalid-task error with the task's index when the task or one of label, start and end
  is missing, an invalid-dates error with the task's label when a date does not parse or
  start is after end. The document is left unchanged.
\<close>

theorem malformed_task_rejected:
  assumes "resolve_mount doc (container opts) = Inr (Some mount)"
      and "\<exists>t\<in>set tasks. malformed eng t"
  shows "\<exists>k<length tasks. malformed eng (tasks ! k) \<and> (\<forall>j<k. \<not> malformed eng (tasks ! j)) \<and>
           renderGanttAsTables eng doc tasks opts = (Inl (task_error k (tasks ! k)), doc)"
proof -
  from first_malformed [OF assms(2)] obtain k where
    k: "k < length tasks" "malformed eng (tasks ! k)" "\<forall>j<k. \<not> malformed eng (tasks ! j)"
    by blast
  then have "normalize eng dc 0 tasks = Inl (task_error k (tasks ! k))" for dc
    using normalize_first_malformed [where k = k and ts = tasks and dc = dc and i = 0 and eng = eng] by simp
  moreover from k have "tasks \<noteq> []" by auto
  ultimately have "renderGanttAsTables eng doc tasks opts = (Inl (task_error k (tasks ! k)), doc)"
    using assms(1) by (simp add: render_mounted)
  with k show ?thesis by blast
qed

theorem malformed_task_rejected_witness:
  "renderGanttAsTables lenient_days page
     [task ''A'' ''2025-09-03'' ''2025-09-10'', task ''B'' ''2025-09-10'' ''2025-09-03''] at_app
   = (Inl (InvalidDates ''B''), page)
   \<and> renderGanttAsTables lenient_days page [task ''M'' ''2025-09'' ''2025-09'', None] at_app
   = (Inl (InvalidTask 1), page)"
proof -
  let ?ts = "[task ''A'' ''2025-09-03'' ''2025-09-10'', task ''B'' ''2025-09-10'' ''2025-09-03'']"
  let ?us = "[task ''M'' ''2025-09'' ''2025-09'', None]"
  have m: "resolve_mount page (container at_app) = Inr (Some 1)"
    by (simp add: resolve_mount_def at_app_def page_def)
  have a: "\<not> malformed lenient_days (task ''A'' ''2025-09-03'' ''2025-09-10'')"
    "\<not> malformed lenient_days (task ''M'' ''2025-09'' ''2025-09'')"
    by (simp_all add: malformed_def missing_field_def missing_def bad_dates_def task_def
          parse_eval tv_def)
  have b: "malformed lenient_days (task ''B'' ''2025-09-10'' ''2025-09-03'')"
    "malformed lenient_days None"
    by (simp_all add: malformed_def missing_field_def missing_def bad_dates_def task_def
          parse_eval tv_def)
  have e: "task_error (Suc 0) (task ''B'' ''2025-09-10'' ''2025-09-03'') = InvalidDates ''B''"
    "task_error (Suc 0) None = InvalidTask 1"
    by (simp_all add: task_error_def missing_field_def missing_def label_of_def task_def)
  from b have "\<exists>t\<in>set ?ts. malformed lenient_days t" by simp
  from malformed_task_rejected [OF m this] obtain k where
    k: "k < length ?ts" "malformed lenient_days (?ts ! k)"
       "renderGanttAsTables lenient_days page ?ts at_app = (Inl (task_error k (?ts ! k)), page)"
    by blast
  from k(1,2) a have "k = Suc 0" by (cases k) auto
  with k(3) e have 1: "renderGanttAsTables lenient_days page ?ts at_app = (Inl (InvalidDates ''B''), page)"
    by simp
  from b have "\<exists>t\<in>set ?us. malformed lenient_days t" by simp
  from malformed_task_rejected [OF m this] obtain j where
    j: "j < length ?us" "malformed lenient_days (?us ! j)"
       "renderGanttAsTables lenient_days page ?us at_app = (Inl (task_error j (?us ! j)), page)"
    by blast
  from j(1,2) a have "j = Suc 0" by (cases j) auto
  with j(3) e have 2: "renderGanttAsTables lenient_days page ?us at_app = (Inl (InvalidTask 1), page)"
    by simp
  from 1 2 show ?thesis by simp
qed

section \<open>The calendar in closed form, and the loops\<close>

lemma render_returns:
  assumes "renderGanttAsTables eng doc tasks opts = (Inr root, doc')"
  shows "\<exists>norm. normalize eng (color_of opts) 0 tasks = Inr norm \<and> norm \<noteq> [] \<and>
                root = grids (shade_of opts) norm"
proof -
  have "\<exists>mount. resolve_mount doc (container opts) = Inr (Some mount)"
  proof (cases "resolve_mount doc (container opts)")
    case (Inl e)
    with assms show ?thesis by (simp add: render_unmounted)
  next
    case (Inr b)
    with assms show ?thesis by (cases b) (simp_all add: render_unmounted)
  qed
  then obtain mount where m: "resolve_mount doc (container opts) = Inr (Some mount)" ..
  show ?thesis
    using assms unfolding render_mounted [OF m]
    by (auto simp: color_of_def shade_of_def grids_def Let_def
             split: if_splits sum.splits list.splits prod.splits)
qed

lemma for_months_preserves:
  "(\<And>m acc. P acc \<Longrightarrow> P (step m acc)) \<Longrightarrow> P acc \<Longrightarrow> P (for_months step m l acc)"
proof (induction step m l acc rule: for_months.induct)
  case (1 step m l acc)
  show ?case
  proof (cases "tv m \<le> tv l")
    case True
    from "1.prems" have "P (step m acc)" by blast
    with True "1.IH" "1.prems"(1)
    have "P (for_months step (addMonths m 1) l (step m acc))" by blast
    with True show ?thesis by (subst for_months.simps) simp
  next
    case False
    then show ?thesis
      using "1.prems"(2) by (subst for_months.simps) simp
  qed
qed

lemma task_rows_map_filter:
  "task_rows shade (startOfMonth m) (endOfMonth m)
      (daysInMonth (year (startOfMonth m)) (int (month (startOfMonth m)))) ts tb
   = tb @ List.map_filter (month_row shade m) ts"
  by (induction ts arbitrary: tb)
     (auto simp: month_row_def Let_def split: option.splits)

lemma month_step_eq:
  "month_step shade norm m acc =
     (if List.map_filter (month_row shade m) norm = [] then acc
      else acc @ [\<lparr>heading = formatMonthFR (startOfMonth m),
                     days_var = daysInMonth (year (startOfMonth m)) (int (month (startOfMonth m))),
                     tr1 = head_days shade (startOfMonth m)
                             (daysInMonth (year (startOfMonth m)) (int (month (startOfMonth m)))),
                     tr2 = head_dow shade (startOfMonth m)
                             (daysInMonth (year (startOfMonth m)) (int (month (startOfMonth m)))),
                     tbody = List.map_filter (month_row shade m) norm\<rparr>])"
  using task_rows_map_filter [of shade m norm "[]"]
  by (simp add: month_step_def Let_def)

lemma grids_sections:
  assumes "s \<in> set (grids shade norm)"
  shows "\<exists>m. heading s = formatMonthFR (startOfMonth m) \<and>
             tbody s = List.map_filter (month_row shade m) norm \<and> tbody s \<noteq> []"
proof -
  let ?P = "\<lambda>acc. \<forall>s\<in>set acc. \<exists>m. heading s = formatMonthFR (startOfMonth m) \<and>
             tbody s = List.map_filter (month_row shade m) norm \<and> tbody s \<noteq> []"
  have step: "?P (month_step shade norm m acc)" if "?P acc" for m acc
    using that unfolding month_step_eq by (cases "List.map_filter (month_row shade m) norm = []") auto
  have "?P (for_months (month_step shade norm) a b [])" for a b
    by (rule for_months_preserves [where P = ?P]) (use step in simp_all)
  then have "?P (grids shade norm)"
    by (cases norm; cases "bounds (n_start (hd norm), n_end (hd norm)) norm")
       (simp_all add: grids_def)
  with assms show ?thesis by blast
qed

lemma dayNorm_inside:
  "1 \<le> d \<Longrightarrow> d \<le> int (month_len y m) \<Longrightarrow> dayNorm y m d = (y, m, nat d)"
  by (subst dayNorm.simps) simp

lemma dayNorm_zero:
  "dayNorm y m 0 = (if m = 0 then (y - 1, 11, 31) else (y, m - 1, month_len y (m - 1)))"
proof (cases "m = 0")
  case True
  have "dayNorm (y - 1) 11 31 = (y - 1, 11, 31)"
    by (rule dayNorm_inside [of 31 "y - 1" 11, simplified nat_numeral]) (simp_all add: month_len_def)
  with True show ?thesis
    by (subst dayNorm.simps) (simp add: month_len_def)
next
  case False
  have "1 \<le> int (month_len y (m - 1))"
    by (simp add: month_len_def)
  then have "dayNorm y (m - 1) (int (month_len y (m - 1))) = (y, m - 1, month_len y (m - 1))"
    using dayNorm_inside [of "int (month_len y (m - 1))" y "m - 1"] by simp
  with False show ?thesis
    by (subst dayNorm.simps) simp
qed

lemma mkDate_day:
  assumes "0 \<le> mi" "mi < 12" "1 \<le> di" "di \<le> int (month_len (makeFullYear y) (nat mi))"
  shows "mkDate y mi di t = \<lparr>year = makeFullYear y, month = nat mi, date = nat di, msec = t\<rparr>"
proof -
  from assms(1,2) have "mi div 12 = 0" "mi mod 12 = mi" by simp_all
  moreover have "dayNorm (makeFullYear y) (nat mi) di = (makeFullYear y, nat mi, nat di)"
    using dayNorm_inside [of di "makeFullYear y" "nat mi"] assms(3,4) by simp
  ultimately show ?thesis by (simp add: mkDate_def)
qed

lemma startOfMonth_eq:
  "month d < 12 \<Longrightarrow>
   startOfMonth d = \<lparr>year = makeFullYear (year d), month = month d, date = 1, msec = 0\<rparr>"
  using mkDate_day [of "int (month d)" 1 "year d" 0]
  by (simp add: startOfMonth_def month_len_def)

lemma endOfMonth_eq:
  assumes "month d < 12"
  shows "endOfMonth d = \<lparr>year = makeFullYear (year d), month = month d,
                          date = month_len (makeFullYear (year d)) (month d),
                          msec = 86399999\<rparr>"
proof (cases "month d = 11")
  case True
  then have "(int (month d) + 1) div 12 = 1" "nat ((int (month d) + 1) mod 12) = 0" by simp_all
  with True show ?thesis
    by (simp add: endOfMonth_def mkDate_def dayNorm_zero timeOfDay_def month_len_def)
next
  case False
  with assms have lt: "Suc (month d) < 12" by simp
  have "int (month d) + 1 = int (Suc (month d))" by simp
  with lt have "(int (month d) + 1) div 12 = 0" "(int (month d) + 1) mod 12 = int (month d) + 1"
    "nat (int (month d) + 1) = Suc (month d)"
    by simp_all
  then show ?thesis
    by (simp add: endOfMonth_def mkDate_def dayNorm_zero timeOfDay_def)
qed

lemma daysInMonth_eq:
  assumes "0 \<le> mi" "mi < 12"
  shows "daysInMonth y mi = month_len (makeFullYear y) (nat mi)"
proof -
  let ?d = "\<lparr>year = y, month = nat mi, date = 1, msec = 0\<rparr>"
  from assms have "month ?d < 12" "int (month ?d) = mi" by simp_all
  with endOfMonth_eq [of ?d]
  have "date (mkDate y (mi + 1) 0 (timeOfDay 23 59 59 999)) = month_len (makeFullYear y) (nat mi)"
    by (simp add: endOfMonth_def)
  moreover have "date (mkDate y (mi + 1) 0 t) = date (mkDate y (mi + 1) 0 t')" for t t'
    by (simp add: mkDate_def split: prod.splits)
  ultimately show ?thesis
    unfolding daysInMonth_def by metis
qed

lemma addMonths_next:
  "month d < 12 \<Longrightarrow>
   addMonths d 1 = (if month d = 11
                    then \<lparr>year = makeFullYear (year d) + 1, month = 0, date = 1, msec = 0\<rparr>
                    else \<lparr>year = makeFullYear (year d), month = month d + 1, date = 1, msec = 0\<rparr>)"
  by (auto simp: addMonths_def mkDate_def dayNorm_inside month_len_def nat_add_distrib)

lemma for_months_go:
  "tv m \<le> tv l \<Longrightarrow> for_months step m l acc = for_months step (addMonths m 1) l (step m acc)"
  by (subst for_months.simps) simp

lemma for_months_stop:
  "\<not> tv m \<le> tv l \<Longrightarrow> for_months step m l acc = acc"
  by (subst for_months.simps) simp

lemmas calendar_eval =
  startOfMonth_eq endOfMonth_eq daysInMonth_eq addMonths_next mkDate_day
  makeFullYear_def month_len_def leap_def tv_def

text \<open>\<open>asDate\<close> leaves a calendar day with a time of day inside the day as it is.\<close>

lemma asDate_id:
  assumes "month d < 12" "1 \<le> date d" "date d \<le> month_len (year d) (month d)"
      and "0 \<le> msec d" "msec d < 86400000"
  shows "asDate d = d"
  using assms dayNorm_inside [of "int (date d)" "year d" "month d"]
  by (simp add: asDate_def)

text \<open>What \<open>parseISO\<close> gives on some strings: the forms of the date-time format whatever
  the engine does, a day beyond the month's length as the engine has it, and strings
  that neither the format nor the sample engine reads.\<close>

lemma parseISO_samples:
  "parseISO eng ''2025-09-03'' = Some \<lparr>year = 2025, month = 8, date = 3, msec = 0\<rparr>"
  "parseISO eng ''2025-09'' = Some \<lparr>year = 2025, month = 8, date = 1, msec = 0\<rparr>"
  "parseISO eng ''2025'' = Some \<lparr>year = 2025, month = 0, date = 1, msec = 0\<rparr>"
  "parseISO eng ''+002025-09-03'' = Some \<lparr>year = 2025, month = 8, date = 3, msec = 0\<rparr>"
  "parseISO eng ''-000001-12-31'' = Some \<lparr>year = - 1, month = 11, date = 31, msec = 0\<rparr>"
  "parseISO lenient_days ''2025-02-30'' = Some \<lparr>year = 2025, month = 2, date = 2, msec = 0\<rparr>"
  "parseISO (\<lambda>str. None) ''2025-02-30'' = None"
  "parseISO lenient_days ''2025-13-01'' = None"
  "parseISO lenient_days ''-000000-01-01'' = None"
  "parseISO lenient_days ''03/09/2025'' = None"
  by (simp_all add: parse_eval lenient_days_def asDate_def dayNorm.simps [of 2025] dayNorm_inside)

lemma render_ok:
  assumes "resolve_mount doc (container opts) = Inr (Some mount)"
      and "normalize eng (color_of opts) 0 tasks = Inr norm" and "norm \<noteq> []"
  shows "renderGanttAsTables eng doc tasks opts =
           (Inr (grids (shade_of opts) norm),
            appendChild (if (case injectStyles opts of None \<Rightarrow> True | Some b \<Rightarrow> b)
                         then injectDefaultStyles doc else doc) mount
              (grids (shade_of opts) norm))"
proof -
  from assms(2,3) have "tasks \<noteq> []" by auto
  moreover obtain t0 ts where "norm = t0 # ts"
    using assms(3) by (cases norm) auto
  ultimately show ?thesis
    using assms(2) unfolding render_mounted [OF assms(1)]
    by (cases "bounds (n_start t0, n_end t0) (t0 # ts)")
       (simp add: color_of_def shade_of_def grids_def Let_def)
qed

lemma grids_eq:
  "norm \<noteq> [] \<Longrightarrow>
   grids shade norm =
     for_months (month_step shade norm)
       (startOfMonth (fst (bounds (n_start (hd norm), n_end (hd norm)) norm)))
       (startOfMonth (snd (bounds (n_start (hd norm), n_end (hd norm)) norm))) []"
  by (cases norm) (simp_all add: grids_def split: prod.splits)

lemma months_visited_eq:
  "norm \<noteq> [] \<Longrightarrow>
   months_visited norm =
     for_months (\<lambda>m acc. acc @ [m])
       (startOfMonth (fst (bounds (n_start (hd norm), n_end (hd norm)) norm)))
       (startOfMonth (snd (bounds (n_start (hd norm), n_end (hd norm)) norm))) []"
  by (cases norm) (simp_all add: months_visited_def split: prod.splits)

lemma clamp_eq:
  "clampIntervalToMonth a b c d =
     (if tv (if tv c < tv a then a else c) \<le> tv (if tv b < tv d then b else d)
      then Some (if tv c < tv a then a else c, if tv b < tv d then b else d)
      else None)"
  by (simp add: clampIntervalToMonth_def Let_def)

lemma month_row_eq:
  "month_row shade m t =
     (case clampIntervalToMonth (n_start t) (n_end t) (startOfMonth m) (endOfMonth m) of
        None \<Rightarrow> None
      | Some (segStart, segEnd) \<Rightarrow>
          Some (task_row shade (startOfMonth m)
                  (daysInMonth (year (startOfMonth m)) (int (month (startOfMonth m))))
                  t segStart segEnd))"
  by (simp add: month_row_def Let_def)

lemmas loop_eval =
  grids_eq months_visited_eq for_months_go for_months_stop month_step_eq month_row_eq clamp_eq
  calendar_eval

lemma late_early_normalize: "normalize eng ''#7aa7ff'' 0 late_early = Inr late_early_norm"
  by (simp add: late_early_def late_early_norm_def task_def normalize_task_def parse_eval tv_def)

lemma with_gap_normalize: "normalize eng ''#7aa7ff'' 0 with_gap = Inr with_gap_norm"
  by (simp add: with_gap_def with_gap_norm_def task_def normalize_task_def parse_eval tv_def)

lemma page_at_app: "resolve_mount page (container at_app) = Inr (Some 1)"
  "color_of at_app = ''#7aa7ff''" "shade_of at_app = True"
  by (simp_all add: resolve_mount_def at_app_def page_def color_of_def shade_of_def)

lemma late_early_render:
  "renderGanttAsTables eng page late_early at_app =
     (Inr (grids True late_early_norm),
      appendChild (injectDefaultStyles page) 1 (grids True late_early_norm))"
  using render_ok [where doc = page and opts = at_app and mount = 1 and tasks = late_early
      and norm = late_early_norm and eng = eng]
  by (simp add: page_at_app late_early_normalize) (simp add: late_early_norm_def at_app_def)

lemma with_gap_render:
  "renderGanttAsTables eng page with_gap at_app =
     (Inr (grids True with_gap_norm),
      appendChild (injectDefaultStyles page) 1 (grids True with_gap_norm))"
  using render_ok [where doc = page and opts = at_app and mount = 1 and tasks = with_gap
      and norm = with_gap_norm and eng = eng]
  by (simp add: page_at_app with_gap_normalize) (simp add: with_gap_norm_def at_app_def)

lemma with_gap_headings:
  "map heading (grids True with_gap_norm) = [(2025, 9), (2025, 10), (2026, 0)]"
  by (simp add: with_gap_norm_def loop_eval formatMonthFR_def)

lemma late_early_labels:
  "map (\<lambda>s. (heading s, map (\<lambda>r. fst (row_label r)) (tbody s))) (grids True late_early_norm)
     = [((2025, 8), [''Late'', ''Early'']), ((2025, 9), [''Other''])]"
  by (simp add: late_early_norm_def loop_eval task_row_def formatMonthFR_def)

section \<open>The output depends on the tasks and options only\<close>

text \<open>
  Claim C9. Two calls on the same task list and options that both return, on the same
  engine and from any two states of the document (in particular the second call made on the document the first
  call left), return structurally identical roots: the same months, rows, occupancy and
  weekend flags in the same order.
\<close>

theorem render_repeatable:
  assumes "renderGanttAsTables eng d1 tasks opts = (Inr r1, d1')"
      and "renderGanttAsTables eng d2 tasks opts = (Inr r2, d2')"
  shows "r1 = r2"
  using render_returns [OF assms(1)] render_returns [OF assms(2)] by auto

theorem render_repeatable_witness:
  "fst (renderGanttAsTables lenient_days page with_gap at_app) = Inr (grids True with_gap_norm)
   \<and> fst (renderGanttAsTables lenient_days (snd (renderGanttAsTables lenient_days page with_gap at_app)) with_gap at_app)
       = Inr (grids True with_gap_norm)"
proof -
  let ?d = "appendChild (injectDefaultStyles page) 1 (grids True with_gap_norm)"
  have m: "resolve_mount ?d (container at_app) = Inr (Some 1)"
    by (simp add: resolve_mount_def at_app_def page_def appendChild_def injectDefaultStyles_def)
  have "\<exists>r d'. renderGanttAsTables lenient_days ?d with_gap at_app = (Inr r, d')"
    using render_ok [OF m, where tasks = with_gap and norm = with_gap_norm and eng = lenient_days]
    by (simp add: page_at_app with_gap_normalize) (simp add: with_gap_norm_def)
  then obtain r d' where second: "renderGanttAsTables lenient_days ?d with_gap at_app = (Inr r, d')"
    by blast
  from render_repeatable [OF with_gap_render second] have "r = grids True with_gap_norm"
    by simp
  with second show ?thesis by (simp add: with_gap_render)
qed

section \<open>Month grids and their rows\<close>

text \<open>
  Claim C6. Every month section of a returned root has at least one task row, and the
  loop body leaves the root as it is for a month where no task yields a row.
\<close>

theorem no_empty_grid:
  assumes "renderGanttAsTables eng doc tasks opts = (Inr root, doc')"
  shows "list_all (\<lambda>s. length (tbody s) > 0) root \<and>
         (task_rows shade (startOfMonth m) (endOfMonth m)
            (daysInMonth (year (startOfMonth m)) (int (month (startOfMonth m)))) norm [] = []
          \<longrightarrow> month_step shade norm m acc = acc)"
proof
  from render_returns [OF assms] obtain norm' where "root = grids (shade_of opts) norm'"
    by blast
  then show "list_all (\<lambda>s. length (tbody s) > 0) root"
    using grids_sections [of _ "shade_of opts" norm'] by (auto simp: list_all_iff)
next
  show "task_rows shade (startOfMonth m) (endOfMonth m)
            (daysInMonth (year (startOfMonth m)) (int (month (startOfMonth m)))) norm [] = []
          \<longrightarrow> month_step shade norm m acc = acc"
    by (simp add: month_step_def Let_def)
qed

theorem no_empty_grid_witness:
  "fst (renderGanttAsTables lenient_days page with_gap at_app) = Inr (grids True with_gap_norm)
   \<and> list_all (\<lambda>s. length (tbody s) > 0) (grids True with_gap_norm)
   \<and> map heading (grids True with_gap_norm) = [(2025, 9), (2025, 10), (2026, 0)]
   \<and> month_step True with_gap_norm \<lparr>year = 2025, month = 11, date = 1, msec = 0\<rparr> [] = []"
proof -
  let ?dec = "\<lparr>year = 2025, month = 11, date = 1, msec = 0\<rparr>"
  have "task_rows True (startOfMonth ?dec) (endOfMonth ?dec)
          (daysInMonth (year (startOfMonth ?dec)) (int (month (startOfMonth ?dec))))
          with_gap_norm [] = []"
    by (simp add: with_gap_norm_def clamp_eq calendar_eval)
  with no_empty_grid [OF with_gap_render, where shade = True and m = ?dec and norm = with_gap_norm
      and acc = "[]"]
  show ?thesis
    by (simp add: with_gap_render with_gap_headings)
qed

section \<open>Clipping a task to a month\<close>

lemma msec_mkDate: "msec (mkDate y mo d t) = t"
  by (simp add: mkDate_def split: prod.splits)

lemma iso_date_midnight: "iso_date str = Some d \<Longrightarrow> msec d = 0"
  by (auto simp: iso_date_def split: option.splits prod.splits if_splits)

lemma asDate_msec: "0 \<le> msec (asDate d) \<and> msec (asDate d) < 86400000"
  by (simp add: asDate_def split: prod.splits)

lemma parseISO_msec: "parseISO eng str = Some d \<Longrightarrow> 0 \<le> msec d \<and> msec d < 86400000"
  using asDate_msec by (auto simp: parseISO_def iso_date_midnight split: option.splits)

text \<open>A normalised task starts no later than it ends, and its dates carry a time of day
  inside the day, whatever the engine answered.\<close>

lemma normalize_task_proper: "normalize_task eng dc i rt = Inr t \<Longrightarrow> proper_task t"
  using parseISO_msec
  by (auto simp: normalize_task_def proper_task_def not_less
           split: option.splits prod.splits if_splits)

lemma tv_le_iff:
  "tv a \<le> tv b \<longleftrightarrow> day_of a < day_of b \<or> (day_of a = day_of b \<and> msec a \<le> msec b)"
  by (auto simp: tv_def day_of_def)

lemma tv_le_imp_day_le: "tv a \<le> tv b \<Longrightarrow> day_of a \<le> day_of b"
  by (auto simp: tv_def day_of_def)

lemma tv_le_day:
  "msec a = 0 \<Longrightarrow> 0 \<le> msec b \<Longrightarrow> tv a \<le> tv b \<longleftrightarrow> day_of a \<le> day_of b"
  by (auto simp: tv_def day_of_def)

lemma tv_less_imp_day_le: "tv a < tv b \<Longrightarrow> day_of a \<le> day_of b"
  by (auto simp: tv_def day_of_def)

lemma not_tv_less_imp_day_le: "\<not> tv a < tv b \<Longrightarrow> day_of b \<le> day_of a"
  by (auto simp: tv_def day_of_def)

text \<open>The comparisons of \<open>clampIntervalToMonth\<close> are on time values. With the window
  from midnight of its first day to the last millisecond of its last day they agree
  with the comparisons of the calendar days.\<close>

lemma clamp_days:
  assumes "tv a \<le> tv b" "msec a \<le> 86399999" "0 \<le> msec b" "msec c = 0" "msec d = 86399999"
  shows "case clampIntervalToMonth a b c d of
           Some (segStart, segEnd) \<Rightarrow>
             day_of segStart = max (day_of a) (day_of c) \<and>
             day_of segEnd = min (day_of b) (day_of d) \<and>
             day_of segStart \<le> day_of segEnd
         | None \<Rightarrow> min (day_of b) (day_of d) < max (day_of a) (day_of c)"
proof -
  define s where "s = (if tv c < tv a then a else c)"
  define e where "e = (if tv b < tv d then b else d)"
  have s: "day_of s = max (day_of a) (day_of c)"
    using tv_less_imp_day_le [of c a] not_tv_less_imp_day_le [of c a]
    by (auto simp: s_def max_def)
  have e: "day_of e = min (day_of b) (day_of d)"
    using tv_less_imp_day_le [of b d] not_tv_less_imp_day_le [of b d]
    by (auto simp: e_def min_def)
  have iff: "tv s \<le> tv e \<longleftrightarrow> day_of s \<le> day_of e"
  proof
    assume "tv s \<le> tv e"
    then show "day_of s \<le> day_of e" by (rule tv_le_imp_day_le)
  next
    assume le: "day_of s \<le> day_of e"
    show "tv s \<le> tv e"
    proof (cases "day_of s = day_of e")
      case False
      with le have "day_of s < day_of e" by simp
      then show ?thesis by (simp add: tv_le_iff)
    next
      case True
      have "msec s \<le> msec e"
      proof (cases "tv c < tv a")
        case a: True
        show ?thesis
        proof (cases "tv b < tv d")
          case True
          with a \<open>day_of s = day_of e\<close> have "day_of a = day_of b"
            by (simp add: s_def e_def)
          with assms(1) have "msec a \<le> msec b"
            by (simp add: tv_le_iff)
          with a True show ?thesis by (simp add: s_def e_def)
        next
          case False
          with a assms(2,5) show ?thesis by (simp add: s_def e_def)
        qed
      next
        case c: False
        with assms(3,4,5) show ?thesis by (simp add: s_def e_def)
      qed
      with True show ?thesis by (simp add: tv_le_iff)
    qed
  qed
  have clamp: "clampIntervalToMonth a b c d = (if tv s \<le> tv e then Some (s, e) else None)"
    by (simp add: clamp_eq s_def e_def)
  show ?thesis
  proof (cases "tv s \<le> tv e")
    case True
    with iff have "day_of s \<le> day_of e" by blast
    moreover from True clamp have "clampIntervalToMonth a b c d = Some (s, e)" by simp
    ultimately show ?thesis
      using s e by (simp only: option.case prod.case)
  next
    case False
    with iff have "\<not> day_of s \<le> day_of e" by blast
    then have "day_of e < day_of s" by (rule iffD1 [OF not_le])
    then have "min (day_of b) (day_of d) < max (day_of a) (day_of c)"
      unfolding s e .
    moreover from False clamp have "clampIntervalToMonth a b c d = None" by simp
    ultimately show ?thesis
      by (simp only: option.case)
  qed
qed

lemma month_window_msec: "msec (startOfMonth m) = 0 \<and> msec (endOfMonth m) = 86399999"
  by (simp add: startOfMonth_def endOfMonth_def msec_mkDate timeOfDay_def)

lemma clamp_proper:
  assumes "proper_task t"
  shows "case clampIntervalToMonth (n_start t) (n_end t) (startOfMonth m) (endOfMonth m) of
           Some (segStart, segEnd) \<Rightarrow>
             day_of segStart = max (day_of (n_start t)) (day_of (startOfMonth m)) \<and>
             day_of segEnd = min (day_of (n_end t)) (day_of (endOfMonth m)) \<and>
             day_of segStart \<le> day_of segEnd
         | None \<Rightarrow> min (day_of (n_end t)) (day_of (endOfMonth m))
               < max (day_of (n_start t)) (day_of (startOfMonth m))"
  using assms month_window_msec [of m]
  by (intro clamp_days) (simp_all add: proper_task_def)



section \<open>The rows of a month section\<close>

text \<open>The months the loop visits have a month index from 0 to 11, so the window of the
  loop body is the month the section is headed by, from its first to its last day.\<close>

lemma mkDate_first:
  "mkDate y mo 1 t = \<lparr>year = makeFullYear y + mo div 12, month = nat (mo mod 12), date = 1, msec = t\<rparr>"
  by (simp add: mkDate_def dayNorm.simps [of _ _ 1] month_len_def)

lemma month_startOfMonth: "month (startOfMonth d) < 12"
  by (simp add: startOfMonth_def mkDate_first)

lemma month_addMonths: "month (addMonths m 1) < 12"
  by (simp add: addMonths_def mkDate_first)

lemma for_months_visits:
  "(\<And>m acc. month m < 12 \<Longrightarrow> P acc \<Longrightarrow> P (step m acc)) \<Longrightarrow> month m < 12 \<Longrightarrow> P acc \<Longrightarrow>
   P (for_months step m l acc)"
proof (induction step m l acc rule: for_months.induct)
  case (1 step m l acc)
  show ?case
  proof (cases "tv m \<le> tv l")
    case True
    from "1.prems" have "P (step m acc)" by blast
    with True "1.IH" "1.prems"(1) month_addMonths [of m]
    have "P (for_months step (addMonths m 1) l (step m acc))" by blast
    with True show ?thesis by (subst for_months.simps) simp
  next
    case False
    then show ?thesis
      using "1.prems"(3) by (subst for_months.simps) simp
  qed
qed

lemma grids_section_of:
  assumes "s \<in> set (grids shade norm)"
  shows "\<exists>m. month m < 12 \<and> s = section_of shade norm m"
proof -
  let ?P = "\<lambda>acc. \<forall>s\<in>set acc. \<exists>m. month m < 12 \<and> s = section_of shade norm m"
  have step: "?P (month_step shade norm m acc)" if "month m < 12" "?P acc" for m acc
    using that unfolding month_step_eq section_of_def
    by (cases "List.map_filter (month_row shade m) norm = []") auto
  have "?P (for_months (month_step shade norm) (startOfMonth a) b [])" for a b
    by (rule for_months_visits [where P = ?P]) (use step month_startOfMonth in simp_all)
  then have "?P (grids shade norm)"
    by (cases norm; cases "bounds (n_start (hd norm), n_end (hd norm)) norm")
       (simp_all add: grids_def)
  with assms show ?thesis by blast
qed

text \<open>A task has a row in the section of \<open>m\<close> exactly when it intersects the month the
  section is headed by.\<close>

lemma month_len_pos: "1 \<le> month_len y m"
  by (simp add: month_len_def)

lemma month_row_in_month:
  assumes "proper_task t" "month m < 12"
  shows "month_row shade m t \<noteq> None \<longleftrightarrow> in_month (formatMonthFR (startOfMonth m)) t"
proof -
  let ?Y = "makeFullYear (year m)" and ?M = "month m"
  let ?F = "(?Y, ?M, 1 :: nat)" and ?L = "(?Y, ?M, month_len ?Y ?M)"
  let ?a = "day_of (n_start t)" and ?b = "day_of (n_end t)"
  have F: "day_of (startOfMonth m) = ?F" and L: "day_of (endOfMonth m) = ?L"
    and h: "formatMonthFR (startOfMonth m) = (?Y, ?M)"
    using assms(2) by (simp_all add: startOfMonth_eq endOfMonth_eq day_of_def formatMonthFR_def)
  from assms(1) have ab: "?a \<le> ?b"
    by (simp add: proper_task_def tv_le_imp_day_le)
  have FL: "?F \<le> ?L"
    using month_len_pos [of ?Y ?M] by simp
  have inm: "in_month (?Y, ?M) t \<longleftrightarrow> ?a \<le> ?L \<and> ?F \<le> ?b"
    by (simp add: in_month_def)
  have row: "month_row shade m t \<noteq> None \<longleftrightarrow>
               clampIntervalToMonth (n_start t) (n_end t) (startOfMonth m) (endOfMonth m) \<noteq> None"
    by (simp add: month_row_eq split: option.splits)
  show ?thesis
  proof (cases "clampIntervalToMonth (n_start t) (n_end t) (startOfMonth m) (endOfMonth m)")
    case None
    with clamp_proper [OF assms(1), of m] have "min ?b ?L < max ?a ?F"
      by (simp add: F L)
    then have "?b < ?a \<or> ?b < ?F \<or> ?L < ?a \<or> ?L < ?F"
      by (simp only: min_less_iff_disj less_max_iff_disj) blast
    with ab FL have "?b < ?F \<or> ?L < ?a"
      by (simp only: not_le [symmetric]) blast
    then have "\<not> (?a \<le> ?L \<and> ?F \<le> ?b)"
      by (simp only: not_le [symmetric]) blast
    with None row inm h show ?thesis by simp
  next
    case (Some p)
    obtain segStart segEnd where p: "p = (segStart, segEnd)" by (cases p)
    from clamp_proper [OF assms(1), of m]
    have "day_of segStart = max ?a (day_of (startOfMonth m)) \<and>
          day_of segEnd = min ?b (day_of (endOfMonth m)) \<and>
          day_of segStart \<le> day_of segEnd"
      unfolding Some p option.case prod.case .
    then have "max ?a (day_of (startOfMonth m)) \<le> min ?b (day_of (endOfMonth m))"
      by (elim conjE) (simp only:)
    then have "max ?a ?F \<le> min ?b ?L"
      by (simp only: F L)
    then have "?a \<le> ?L \<and> ?F \<le> ?b"
      by (simp only: max.bounded_iff min.bounded_iff)
    with Some row inm h show ?thesis by simp
  qed
qed

text \<open>The normalised tasks are the caller's tasks, one for one and in the same order.\<close>


lemma normalize_task_label:
  "normalize_task eng dc i t = Inr n \<Longrightarrow> n_label n = label_of t"
  by (auto simp: normalize_task_def label_of_def split: option.splits prod.splits if_splits)

lemma normalize_pointwise:
  "normalize eng dc i ts = Inr norm \<Longrightarrow>
   length norm = length ts \<and> (\<forall>k<length ts. normalize_task eng dc (i + k) (ts ! k) = Inr (norm ! k))"
proof (induction ts arbitrary: i norm)
  case Nil
  then show ?case by simp
next
  case (Cons t ts)
  from Cons.prems obtain n ns where
    n: "normalize_task eng dc i t = Inr n" and ns: "normalize eng dc (Suc i) ts = Inr ns"
    and norm: "norm = n # ns"
    by (auto split: sum.splits)
  from Cons.IH [OF ns] have len: "length ns = length ts"
    and rest: "\<And>k. k < length ts \<Longrightarrow> normalize_task eng dc (Suc i + k) (ts ! k) = Inr (ns ! k)"
    by auto
  show ?case
  proof (intro conjI allI impI)
    show "length norm = length (t # ts)" using len norm by simp
  next
    fix k assume "k < length (t # ts)"
    then show "normalize_task eng dc (i + k) ((t # ts) ! k) = Inr (norm ! k)"
      using n rest norm by (cases k) auto
  qed
qed

lemma normalize_labels:
  assumes "normalize eng dc i ts = Inr norm"
  shows "map n_label norm = map label_of ts"
proof (rule nth_equalityI)
  show "length (map n_label norm) = length (map label_of ts)"
    using normalize_pointwise [OF assms] by simp
next
  fix k assume "k < length (map n_label norm)"
  then have k: "k < length ts" using normalize_pointwise [OF assms] by simp
  with normalize_pointwise [OF assms] have "normalize_task eng dc (i + k) (ts ! k) = Inr (norm ! k)"
    by blast
  from normalize_task_label [OF this] k normalize_pointwise [OF assms]
  show "map n_label norm ! k = map label_of ts ! k" by simp
qed

lemma month_row_label:
  "month_row shade m t = Some r \<Longrightarrow> fst (row_label r) = n_label t"
  by (auto simp: month_row_eq task_row_def split: option.splits)

lemma map_filter_labels:
  "map (\<lambda>r. fst (row_label r)) (List.map_filter (month_row shade m) ts)
     = map n_label (filter (\<lambda>t. month_row shade m t \<noteq> None) ts)"
  by (induction ts) (auto simp: month_row_label split: option.splits)

lemma normalize_proper:
  assumes "normalize eng dc i ts = Inr norm" and "t \<in> set norm"
  shows "proper_task t"
proof -
  from assms(2) obtain k where k: "k < length norm" and t: "t = norm ! k"
    by (auto simp: in_set_conv_nth)
  with normalize_pointwise [OF assms(1)] have "normalize_task eng dc (i + k) (ts ! k) = Inr t"
    by simp
  then show ?thesis by (rule normalize_task_proper)
qed

lemma month_row_head:
  "month_row shade m t = Some r \<Longrightarrow> row_label r = row_head t"
  by (auto simp: month_row_eq task_row_def row_head_def split: option.splits)

lemma map_filter_heads:
  "map row_label (List.map_filter (month_row shade m) ts)
     = map row_head (filter (\<lambda>t. month_row shade m t \<noteq> None) ts)"
  by (induction ts) (auto simp: List.map_filter_simps month_row_head split: option.splits)

lemma makeFullYear_idem: "makeFullYear (makeFullYear y) = makeFullYear y"
  by (simp add: makeFullYear_def)

lemma section_days:
  assumes "month m < 12"
  shows "days_var (section_of shade norm m)
           = month_len (fst (heading (section_of shade norm m)))
               (snd (heading (section_of shade norm m)))"
  using assms daysInMonth_eq [of "int (month m)" "makeFullYear (year m)"]
  by (simp add: section_of_def startOfMonth_eq formatMonthFR_def makeFullYear_idem)

text \<open>
  Claim C7. Every month section of a returned root is the section of a month of the
  loop: it has the days of the month it is headed by, and its task rows are the rows of
  the normalised tasks that intersect that month (they start no later than its last
  day and end no earlier than its first day), one row for each such task, in the order
  of the caller's task list. The normalised tasks are the caller's tasks one for one,
  and the row labels form a subsequence of the caller's labels.
\<close>

theorem rows_keep_input_order:
  assumes "renderGanttAsTables eng doc tasks opts = (Inr root, doc')" and "s \<in> set root"
  shows "\<exists>norm m. normalize eng (color_of opts) 0 tasks = Inr norm \<and>
           length norm = length tasks \<and>
           (\<forall>k<length tasks. normalize_task eng (color_of opts) k (tasks ! k) = Inr (norm ! k)) \<and>
           s = section_of (shade_of opts) norm m \<and>
           days_var s = month_len (fst (heading s)) (snd (heading s)) \<and>
           tbody s = List.map_filter (month_row (shade_of opts) m) norm \<and>
           map row_label (tbody s) = map row_head (filter (in_month (heading s)) norm) \<and>
           subseq (map (\<lambda>r. fst (row_label r)) (tbody s)) (map label_of tasks)"
proof -
  from render_returns [OF assms(1)] obtain norm where
    norm: "normalize eng (color_of opts) 0 tasks = Inr norm" and root: "root = grids (shade_of opts) norm"
    by blast
  from grids_section_of [of s "shade_of opts" norm] assms(2) root obtain m where
    m: "month m < 12" and s: "s = section_of (shade_of opts) norm m"
    by blast
  from s have body: "tbody s = List.map_filter (month_row (shade_of opts) m) norm"
    and head: "heading s = formatMonthFR (startOfMonth m)"
    by (simp_all add: section_of_def)
  have days: "days_var s = month_len (fst (heading s)) (snd (heading s))"
    unfolding s using m by (rule section_days)
  have "filter (\<lambda>t. month_row (shade_of opts) m t \<noteq> None) norm = filter (in_month (heading s)) norm"
  proof (rule filter_cong [OF refl])
    fix t assume "t \<in> set norm"
    with norm have "proper_task t" by (rule normalize_proper)
    then show "month_row (shade_of opts) m t \<noteq> None \<longleftrightarrow> in_month (heading s) t"
      unfolding head using m by (rule month_row_in_month)
  qed
  then have rows: "map row_label (tbody s) = map row_head (filter (in_month (heading s)) norm)"
    by (simp only: body map_filter_heads)
  have "subseq (map n_label (filter (\<lambda>t. month_row (shade_of opts) m t \<noteq> None) norm))
               (map n_label norm)"
    by (simp add: subseq_map)
  then have sub: "subseq (map (\<lambda>r. fst (row_label r)) (tbody s)) (map label_of tasks)"
    by (simp add: body map_filter_labels normalize_labels [OF norm])
  from normalize_pointwise [OF norm]
  have len: "length norm = length tasks"
    and pt: "\<forall>k<length tasks. normalize_task eng (color_of opts) k (tasks ! k) = Inr (norm ! k)"
    by simp_all
  from norm len pt s days body rows sub show ?thesis
    by blast
qed

theorem rows_keep_input_order_witness:
  "fst (renderGanttAsTables lenient_days page late_early at_app) = Inr (grids True late_early_norm)
   \<and> map (\<lambda>s. (heading s, map (\<lambda>r. fst (row_label r)) (tbody s))) (grids True late_early_norm)
       = [((2025, 8), [''Late'', ''Early'']), ((2025, 9), [''Other''])]
   \<and> map row_label (tbody (hd (grids True late_early_norm)))
       = map row_head (filter (in_month (2025, 8)) late_early_norm)
   \<and> filter (in_month (2025, 8)) late_early_norm = [late_early_norm ! 0, late_early_norm ! 2]
   \<and> subseq (map (\<lambda>r. fst (row_label r)) (tbody (hd (grids True late_early_norm))))
        [''Late'', ''Other'', ''Early'']"
proof -
  have ne: "grids True late_early_norm \<noteq> []"
    using late_early_labels by auto
  then have "hd (grids True late_early_norm) \<in> set (grids True late_early_norm)"
    by simp
  from rows_keep_input_order [OF late_early_render [where eng = lenient_days] this]
  obtain norm where "normalize lenient_days (color_of at_app) 0 late_early = Inr norm"
    and "map row_label (tbody (hd (grids True late_early_norm)))
           = map row_head (filter (in_month (heading (hd (grids True late_early_norm)))) norm)"
    and "subseq (map (\<lambda>r. fst (row_label r)) (tbody (hd (grids True late_early_norm))))
           (map label_of late_early)"
    by blast
  moreover have "heading (hd (grids True late_early_norm)) = (2025, 8)"
    using late_early_labels ne by (cases "grids True late_early_norm") auto
  moreover have "map label_of late_early = [''Late'', ''Other'', ''Early'']"
    by (simp add: late_early_def task_def label_of_def)
  moreover have "filter (in_month (2025, 8)) late_early_norm
                   = [late_early_norm ! 0, late_early_norm ! 2]"
    by (simp add: late_early_norm_def in_month_def day_of_def month_len_def)
  ultimately show ?thesis
    by (simp add: late_early_render late_early_labels late_early_normalize page_at_app)
qed

section \<open>Years 0 to 99\<close>

text \<open>
  The \<open>Date\<close> constructor reads a year argument from 0 to 99 as 1900 + year, so
  \<open>startOfMonth\<close>, \<open>endOfMonth\<close> and \<open>addMonths\<close> move a date of the years 0000 to 0099
  into the twentieth century. The month loop then runs over months of 1900 to 1999,
  where a task of the first century has no clipped segment.
\<close>

text \<open>
  Claim C1: the days marked for a task over all month grids are exactly the days from
  its start to its end. On the code this fails for the task \<open>A\<close> from 0050-01-01 to
  0050-01-10: the call returns a root without any month section, so none of the ten
  days of the task is marked, whatever the engine. (For calendar days from the year 100
  on the claim holds, see \<open>marked_days_late\<close> and \<open>headings_distinct_late\<close> below.)
\<close>

theorem early_year_task_unmarked:
  "fst (renderGanttAsTables eng page [task ''A'' ''0050-01-01'' ''0050-01-10''] at_app) = Inr []"
proof -
  let ?norm = "[\<lparr>n_label = ''A'', n_start = \<lparr>year = 50, month = 0, date = 1, msec = 0\<rparr>,
                 n_end = \<lparr>year = 50, month = 0, date = 10, msec = 0\<rparr>, n_color = ''#7aa7ff''\<rparr>]"
  have "normalize eng ''#7aa7ff'' 0 [task ''A'' ''0050-01-01'' ''0050-01-10''] = Inr ?norm"
    by (simp add: task_def normalize_task_def parse_eval tv_def)
  then have "fst (renderGanttAsTables eng page [task ''A'' ''0050-01-01'' ''0050-01-10''] at_app)
               = Inr (grids True ?norm)"
    using render_ok [where doc = page and opts = at_app and mount = 1 and norm = ?norm and eng = eng]
    by (simp add: page_at_app)
  moreover have "grids True ?norm = []"
    by (simp add: loop_eval)
  ultimately show ?thesis by simp
qed

text \<open>
  Claim C4: the months visited run from the month of the earliest start to the month of
  the latest end, each once and in order. On the code this fails for the same task: the
  only month visited is January 1950, not January 0050; and for a task from 0099-12-15
  to 0100-01-10 no month is visited at all. (For calendar days from the year 100 on the
  claim holds, see \<open>months_visited_late\<close> below.)
\<close>

theorem early_year_months:
  "map_sum id months_visited (normalize eng ''#7aa7ff'' 0 [task ''A'' ''0050-01-01'' ''0050-01-10''])
     = Inr [\<lparr>year = 1950, month = 0, date = 1, msec = 0\<rparr>]
   \<and> map_sum id months_visited (normalize eng ''#7aa7ff'' 0 [task ''B'' ''0099-12-15'' ''0100-01-10''])
     = Inr []"
proof -
  let ?a = "[\<lparr>n_label = ''A'', n_start = \<lparr>year = 50, month = 0, date = 1, msec = 0\<rparr>,
              n_end = \<lparr>year = 50, month = 0, date = 10, msec = 0\<rparr>, n_color = ''#7aa7ff''\<rparr>]"
  let ?b = "[\<lparr>n_label = ''B'', n_start = \<lparr>year = 99, month = 11, date = 15, msec = 0\<rparr>,
              n_end = \<lparr>year = 100, month = 0, date = 10, msec = 0\<rparr>, n_color = ''#7aa7ff''\<rparr>]"
  have "normalize eng ''#7aa7ff'' 0 [task ''A'' ''0050-01-01'' ''0050-01-10''] = Inr ?a"
       "normalize eng ''#7aa7ff'' 0 [task ''B'' ''0099-12-15'' ''0100-01-10''] = Inr ?b"
    by (simp_all add: task_def normalize_task_def parse_eval tv_def)
  moreover have "months_visited ?a = [\<lparr>year = 1950, month = 0, date = 1, msec = 0\<rparr>]"
    by (simp add: loop_eval)
  moreover have "months_visited ?b = []"
    by (simp add: loop_eval)
  ultimately show ?thesis by simp
qed

text \<open>
  Claim C8: a task with start = end has exactly one row, in the month of that day, with
  exactly that day marked. On the code this fails for the one-day task on 0099-12-31:
  the call returns a root without any month section, hence without a row for the task.
  (For calendar days from the year 100 on the claim holds, see \<open>single_day_late\<close>
  below.)
\<close>

theorem single_day_early_year:
  "fst (renderGanttAsTables eng page [task ''A'' ''0099-12-31'' ''0099-12-31''] at_app) = Inr []"
proof -
  let ?norm = "[\<lparr>n_label = ''A'', n_start = \<lparr>year = 99, month = 11, date = 31, msec = 0\<rparr>,
                 n_end = \<lparr>year = 99, month = 11, date = 31, msec = 0\<rparr>, n_color = ''#7aa7ff''\<rparr>]"
  have "normalize eng ''#7aa7ff'' 0 [task ''A'' ''0099-12-31'' ''0099-12-31''] = Inr ?norm"
    by (simp add: task_def normalize_task_def parse_eval tv_def)
  then have "fst (renderGanttAsTables eng page [task ''A'' ''0099-12-31'' ''0099-12-31''] at_app)
               = Inr (grids True ?norm)"
    using render_ok [where doc = page and opts = at_app and mount = 1 and norm = ?norm and eng = eng]
    by (simp add: page_at_app)
  moreover have "grids True ?norm = []"
    by (simp add: loop_eval)
  ultimately show ?thesis by simp
qed

section \<open>Dates from the year 100 on\<close>

lemma month_start_simps:
  "year (month_start k) = k div 12" "month (month_start k) = nat (k mod 12)"
  "date (month_start k) = 1" "msec (month_start k) = 0" "month (month_start k) < 12"
  by (simp_all add: month_start_def)

lemma month_no_month_start: "month_no (month_start k) = k"
  by (simp add: month_no_def month_start_def)

lemma month_start_month_no:
  "month d < 12 \<Longrightarrow> month_start (month_no d) = \<lparr>year = year d, month = month d, date = 1, msec = 0\<rparr>"
  by (simp add: month_no_def month_start_def)

lemma div_mod_12:
  fixes k q r :: int
  assumes "k = 12 * q + r" "0 \<le> r" "r < 12"
  shows "k div 12 = q" "k mod 12 = r"
  using assms by (simp_all add: int_div_pos_eq int_mod_pos_eq)

lemma makeFullYear_late: "1200 \<le> k \<Longrightarrow> makeFullYear (k div 12) = k div 12"
proof -
  assume "1200 \<le> k"
  then have "1200 div 12 \<le> k div 12"
    by (intro zdiv_mono1) simp_all
  then show ?thesis
    by (simp add: makeFullYear_def)
qed

lemma startOfMonth_month_start: "1200 \<le> k \<Longrightarrow> startOfMonth (month_start k) = month_start k"
  by (simp add: startOfMonth_eq month_start_simps makeFullYear_late)

lemma startOfMonth_late:
  "month d < 12 \<Longrightarrow> 100 \<le> year d \<Longrightarrow> startOfMonth d = month_start (month_no d)"
  by (simp add: startOfMonth_eq month_start_month_no makeFullYear_def)

lemma endOfMonth_month_start:
  "1200 \<le> k \<Longrightarrow>
   endOfMonth (month_start k) =
     \<lparr>year = k div 12, month = nat (k mod 12),
      date = month_len (k div 12) (nat (k mod 12)), msec = 86399999\<rparr>"
  by (simp add: endOfMonth_eq month_start_simps makeFullYear_late)

lemma daysInMonth_month_start:
  "1200 \<le> k \<Longrightarrow>
   daysInMonth (year (month_start k)) (int (month (month_start k)))
     = month_len (k div 12) (nat (k mod 12))"
  by (simp add: daysInMonth_eq month_start_simps makeFullYear_late)

lemma addMonths_month_start:
  assumes "1200 \<le> k"
  shows "addMonths (month_start k) 1 = month_start (k + 1)"
proof (cases "k mod 12 = 11")
  case True
  then have "k + 1 = 12 * (k div 12 + 1) + 0"
    using mult_div_mod_eq [of 12 k] by simp
  then have "(k + 1) div 12 = k div 12 + 1" "(k + 1) mod 12 = 0"
    by (rule div_mod_12; simp)+
  with True show ?thesis
    by (simp add: addMonths_next month_start_simps makeFullYear_late [OF assms])
next
  case False
  have r: "0 \<le> k mod 12" "k mod 12 < 12" by simp_all
  with False have lt: "k mod 12 + 1 < 12" by linarith
  have eq: "k + 1 = 12 * (k div 12) + (k mod 12 + 1)"
    using mult_div_mod_eq [of 12 k] by simp
  from r(1) have nn: "0 \<le> k mod 12 + 1" by simp
  have "(k + 1) div 12 = k div 12" "(k + 1) mod 12 = k mod 12 + 1"
    by (rule div_mod_12 [OF eq nn lt])+
  moreover from False r have "nat (k mod 12) \<noteq> 11" by linarith
  ultimately show ?thesis
    by (simp add: addMonths_next month_start_simps makeFullYear_late [OF assms])
       (simp add: month_start_def nat_add_distrib)
qed

lemma lex_12:
  fixes qa ra qb rb :: int
  assumes "0 \<le> ra" "ra < 12" "0 \<le> rb" "rb < 12"
  shows "(qa < qb \<or> qa = qb \<and> ra \<le> rb) \<longleftrightarrow> 12 * qa + ra \<le> 12 * qb + rb"
  using assms by auto

lemma tv_month_start_le: "tv (month_start a) \<le> tv (month_start b) \<longleftrightarrow> a \<le> b"
proof -
  have "(a div 12 < b div 12 \<or> a div 12 = b div 12 \<and> a mod 12 \<le> b mod 12)
          \<longleftrightarrow> 12 * (a div 12) + a mod 12 \<le> 12 * (b div 12) + b mod 12"
    by (rule lex_12) simp_all
  then have "(a div 12 < b div 12 \<or> a div 12 = b div 12 \<and> a mod 12 \<le> b mod 12) \<longleftrightarrow> a \<le> b"
    by (simp only: mult_div_mod_eq)
  moreover have "nat (a mod 12) \<le> nat (b mod 12) \<longleftrightarrow> a mod 12 \<le> b mod 12"
    by (rule nat_le_eq_zle) simp
  ultimately show ?thesis
    by (auto simp: tv_def month_start_def)
qed

lemma for_months_upto:
  "1200 \<le> a \<Longrightarrow>
   for_months step (month_start a) (month_start b) acc = fold step (map month_start [a..b]) acc"
proof (induction "nat (b + 1 - a)" arbitrary: a acc)
  case 0
  then have "\<not> a \<le> b" by simp
  then show ?case
    by (simp add: for_months_stop tv_month_start_le)
next
  case (Suc n)
  then have le: "a \<le> b" by simp
  from Suc have "n = nat (b + 1 - (a + 1))" "1200 \<le> a + 1" by simp_all
  then have "for_months step (month_start (a + 1)) (month_start b) (step (month_start a) acc)
               = fold step (map month_start [a + 1..b]) (step (month_start a) acc)"
    by (rule Suc.hyps(1))
  with le Suc.prems show ?case
    by (simp add: for_months_go tv_month_start_le addMonths_month_start upto_rec1 [of a b])
qed

lemma iso_date_valid: "iso_date str = Some d \<Longrightarrow> valid_day d"
  by (auto simp: iso_date_def iso_fields_def valid_day_def
           split: option.splits prod.splits if_splits)

text \<open>A task whose dates are read by \<open>iso_date\<close> is normalised to a task of two calendar
  days at midnight.\<close>

lemma normalize_task_valid:
  assumes "normalize_task eng dc i rt = Inr t" and "iso_task rt"
  shows "valid_task t"
  using assms iso_date_valid
  by (auto simp: normalize_task_def iso_task_def parseISO_def valid_task_def not_less
           split: option.splits prod.splits if_splits)

lemma normalize_valid:
  assumes "normalize eng dc i ts = Inr norm" and "list_all iso_task ts" and "t \<in> set norm"
  shows "valid_task t"
proof -
  from assms(3) obtain k where k: "k < length norm" "norm ! k = t"
    by (auto simp: in_set_conv_nth)
  with normalize_pointwise [OF assms(1)]
  have n: "normalize_task eng dc (i + k) (ts ! k) = Inr t" and len: "k < length ts"
    by auto
  from len assms(2) have "iso_task (ts ! k)"
    by (simp add: list_all_length)
  with n show ?thesis by (rule normalize_task_valid)
qed

lemma bounds_min:
  "bounds (a, b) ts = (mn, mx) \<Longrightarrow>
   (mn = a \<or> mn \<in> n_start ` set ts) \<and> tv mn \<le> tv a \<and> (\<forall>t\<in>set ts. tv mn \<le> tv (n_start t))"
proof (induction ts arbitrary: a b)
  case Nil
  then show ?case by simp
next
  case (Cons t ts)
  let ?a = "if tv (n_start t) < tv a then n_start t else a"
  let ?b = "if tv (n_end t) > tv b then n_end t else b"
  from Cons.prems have "bounds (?a, ?b) ts = (mn, mx)" by simp
  from Cons.IH [OF this]
  have 1: "mn = ?a \<or> mn \<in> n_start ` set ts" and 2: "tv mn \<le> tv ?a"
    and 3: "\<forall>t\<in>set ts. tv mn \<le> tv (n_start t)"
    by blast+
  have "tv ?a \<le> tv a" "tv ?a \<le> tv (n_start t)" by auto
  with 2 have "tv mn \<le> tv a" "tv mn \<le> tv (n_start t)" by (blast intro: order_trans)+
  moreover from 1 have "mn = a \<or> mn \<in> n_start ` set (t # ts)"
    by (auto split: if_splits)
  ultimately show ?case using 3 by simp
qed

lemma bounds_max:
  "bounds (a, b) ts = (mn, mx) \<Longrightarrow>
   (mx = b \<or> mx \<in> n_end ` set ts) \<and> tv b \<le> tv mx \<and> (\<forall>t\<in>set ts. tv (n_end t) \<le> tv mx)"
proof (induction ts arbitrary: a b)
  case Nil
  then show ?case by simp
next
  case (Cons t ts)
  let ?a = "if tv (n_start t) < tv a then n_start t else a"
  let ?b = "if tv (n_end t) > tv b then n_end t else b"
  from Cons.prems have "bounds (?a, ?b) ts = (mn, mx)" by simp
  from Cons.IH [OF this]
  have 1: "mx = ?b \<or> mx \<in> n_end ` set ts" and 2: "tv ?b \<le> tv mx"
    and 3: "\<forall>t\<in>set ts. tv (n_end t) \<le> tv mx"
    by blast+
  have "tv b \<le> tv ?b" "tv (n_end t) \<le> tv ?b" by auto
  with 2 have "tv b \<le> tv mx" "tv (n_end t) \<le> tv mx" by (blast intro: order_trans)+
  moreover from 1 have "mx = b \<or> mx \<in> n_end ` set (t # ts)"
    by (auto split: if_splits)
  ultimately show ?case using 3 by simp
qed

text \<open>The global bounds of a non-empty task list are the earliest start and the latest end.\<close>

lemma global_bounds:
  assumes "norm \<noteq> []"
  obtains mn mx where
    "bounds (n_start (hd norm), n_end (hd norm)) norm = (mn, mx)"
    "mn \<in> n_start ` set norm" "\<forall>t\<in>set norm. tv mn \<le> tv (n_start t)"
    "mx \<in> n_end ` set norm" "\<forall>t\<in>set norm. tv (n_end t) \<le> tv mx"
proof -
  obtain mn mx where b: "bounds (n_start (hd norm), n_end (hd norm)) norm = (mn, mx)"
    by (cases "bounds (n_start (hd norm), n_end (hd norm)) norm")
  from assms have "hd norm \<in> set norm" by simp
  with bounds_min [OF b] bounds_max [OF b]
  have "mn \<in> n_start ` set norm" "\<forall>t\<in>set norm. tv mn \<le> tv (n_start t)"
    "mx \<in> n_end ` set norm" "\<forall>t\<in>set norm. tv (n_end t) \<le> tv mx"
    by auto
  with b show thesis by (rule that)
qed

lemma tv_le_month_no:
  "month a < 12 \<Longrightarrow> month b < 12 \<Longrightarrow> tv a \<le> tv b \<Longrightarrow> month_no a \<le> month_no b"
  by (auto simp: tv_def month_no_def)

lemma tv_le_year: "tv a \<le> tv b \<Longrightarrow> year a \<le> year b"
  by (auto simp: tv_def)

lemma month_no_late: "100 \<le> year d \<Longrightarrow> 1200 \<le> month_no d"
  by (simp add: month_no_def)

text \<open>The range of months the loop runs over, for tasks from the year 100 on.\<close>

lemma loop_range:
  assumes norm: "normalize eng dc i tasks = Inr norm"
      and late: "\<forall>t\<in>set norm. 100 \<le> year (n_start t)"
      and mn: "mn \<in> n_start ` set norm" and mx: "mx \<in> n_end ` set norm"
      and iso: "list_all iso_task tasks"
  shows "1200 \<le> month_no mn"
    and "for_months step (startOfMonth mn) (startOfMonth mx) acc
           = fold step (map month_start [month_no mn..month_no mx]) acc"
proof -
  from mn obtain t1 where t1: "t1 \<in> set norm" "mn = n_start t1" by blast
  from mx obtain t2 where t2: "t2 \<in> set norm" "mx = n_end t2" by blast
  from normalize_valid [OF norm iso] t1 t2 have v: "valid_task t1" "valid_task t2" by blast+
  from t1 late have y1: "100 \<le> year mn" by blast
  from t2 late have "100 \<le> year (n_start t2)" by blast
  moreover from v(2) have "year (n_start t2) \<le> year (n_end t2)"
    by (simp add: valid_task_def tv_le_year)
  ultimately have y2: "100 \<le> year mx" using t2(2) by simp
  from v t1 t2 have m: "month mn < 12" "month mx < 12"
    by (simp_all add: valid_task_def valid_day_def)
  show late_mn: "1200 \<le> month_no mn" using y1 by (rule month_no_late)
  have "startOfMonth mn = month_start (month_no mn)" "startOfMonth mx = month_start (month_no mx)"
    using m y1 y2 by (simp_all only: startOfMonth_late)
  then show "for_months step (startOfMonth mn) (startOfMonth mx) acc
          = fold step (map month_start [month_no mn..month_no mx]) acc"
    using for_months_upto [OF late_mn] by (simp only:)
qed

lemma fold_record: "fold (\<lambda>m acc. acc @ [m]) ms acc = acc @ ms"
  by (induction ms arbitrary: acc) simp_all

text \<open>
  For task lists whose dates are calendar days that \<open>iso_date\<close> reads, all from the
  year 100 on, the months visited are the months from that of the earliest start to that
  of the latest end, each once and in ascending order.
\<close>

theorem months_visited_late:
  assumes "normalize eng dc i tasks = Inr norm" "norm \<noteq> []"
      and "\<forall>t\<in>set norm. 100 \<le> year (n_start t)"
      and "list_all iso_task tasks"
  shows "\<exists>mn mx.
           mn \<in> n_start ` set norm \<and> (\<forall>t\<in>set norm. tv mn \<le> tv (n_start t)) \<and>
           mx \<in> n_end ` set norm \<and> (\<forall>t\<in>set norm. tv (n_end t) \<le> tv mx) \<and>
           months_visited norm = map month_start [month_no mn..month_no mx]"
proof -
  from global_bounds [OF assms(2)] obtain mn mx where
    b: "bounds (n_start (hd norm), n_end (hd norm)) norm = (mn, mx)"
    and r: "mn \<in> n_start ` set norm" "\<forall>t\<in>set norm. tv mn \<le> tv (n_start t)"
      "mx \<in> n_end ` set norm" "\<forall>t\<in>set norm. tv (n_end t) \<le> tv mx"
    by blast
  have "months_visited norm = for_months (\<lambda>m acc. acc @ [m]) (startOfMonth mn) (startOfMonth mx) []"
    by (simp only: months_visited_eq [OF assms(2)] b fst_conv snd_conv)
  also have "\<dots> = map month_start [month_no mn..month_no mx]"
    by (simp only: loop_range(2) [OF assms(1,3) r(1,3) assms(4)] fold_record append_Nil)
  finally show ?thesis using r by blast
qed

lemma month_step_section:
  "month_step shade norm m acc =
     acc @ (if List.map_filter (month_row shade m) norm = [] then []
            else [section_of shade norm m])"
  by (simp add: month_step_eq section_of_def)

lemma fold_month_step:
  "fold (month_step shade norm) ms acc =
     acc @ map (section_of shade norm)
             (filter (\<lambda>m. List.map_filter (month_row shade m) norm \<noteq> []) ms)"
  by (induction ms arbitrary: acc) (simp_all add: month_step_section)

lemma grids_late:
  assumes "normalize eng dc i tasks = Inr norm" "norm \<noteq> []"
      and "\<forall>t\<in>set norm. 100 \<le> year (n_start t)"
      and "list_all iso_task tasks"
  obtains mn mx where
    "mn \<in> n_start ` set norm" "\<forall>t\<in>set norm. tv mn \<le> tv (n_start t)"
    "mx \<in> n_end ` set norm" "\<forall>t\<in>set norm. tv (n_end t) \<le> tv mx"
    "1200 \<le> month_no mn"
    "grids shade norm =
       map (\<lambda>k. section_of shade norm (month_start k))
         (filter (\<lambda>k. List.map_filter (month_row shade (month_start k)) norm \<noteq> [])
            [month_no mn..month_no mx])"
proof -
  from global_bounds [OF assms(2)] obtain mn mx where
    b: "bounds (n_start (hd norm), n_end (hd norm)) norm = (mn, mx)"
    and r: "mn \<in> n_start ` set norm" "\<forall>t\<in>set norm. tv mn \<le> tv (n_start t)"
      "mx \<in> n_end ` set norm" "\<forall>t\<in>set norm. tv (n_end t) \<le> tv mx"
    by blast
  have "grids shade norm = for_months (month_step shade norm) (startOfMonth mn) (startOfMonth mx) []"
    by (simp only: grids_eq [OF assms(2)] b fst_conv snd_conv)
  also have "\<dots> = fold (month_step shade norm) (map month_start [month_no mn..month_no mx]) []"
    by (rule loop_range(2) [OF assms(1,3) r(1,3) assms(4)])
  also have "\<dots> = map (\<lambda>k. section_of shade norm (month_start k))
         (filter (\<lambda>k. List.map_filter (month_row shade (month_start k)) norm \<noteq> [])
            [month_no mn..month_no mx])"
    by (simp add: fold_month_step filter_map comp_def)
  finally show thesis
    using r loop_range(1) [OF assms(1,3) r(1,3) assms(4)] by (rule that [rotated -1])
qed

lemma heading_section_late:
  "1200 \<le> k \<Longrightarrow> heading (section_of shade norm (month_start k)) = (k div 12, nat (k mod 12))"
  by (simp add: section_of_def formatMonthFR_def startOfMonth_month_start month_start_simps)

lemma tbody_section: "tbody (section_of shade norm m) = List.map_filter (month_row shade m) norm"
  by (simp add: section_of_def)

lemma month_of_heading:
  fixes k :: int
  assumes "k div 12 = y" "nat (k mod 12) = mo"
  shows "k = y * 12 + int mo"
proof -
  have "0 \<le> k mod 12" by simp
  with assms(2) have "k mod 12 = int mo" by simp
  with assms(1) mult_div_mod_eq [of 12 k] show ?thesis by simp
qed

lemma heading_of_month:
  fixes y :: int
  assumes "mo < 12"
  shows "(y * 12 + int mo) div 12 = y" "nat ((y * 12 + int mo) mod 12) = mo"
proof -
  have "y * 12 + int mo = 12 * y + int mo" "0 \<le> int mo" "int mo < 12"
    using assms by simp_all
  from div_mod_12 [OF this] show "(y * 12 + int mo) div 12 = y" "nat ((y * 12 + int mo) mod 12) = mo"
    by simp_all
qed

lemma length_task_cells: "length (task_cells shade col mS dim s e) = dim"
  by (simp add: task_cells_def)

lemma nth_task_cells:
  assumes "1 \<le> d" "d \<le> dim"
  shows "td_bar (task_cells shade col mS dim s e ! (d - 1)) \<noteq> None \<longleftrightarrow>
           tv (mkDate (year s) (int (month s)) (int (date s)) 0)
             \<le> tv (mkDate (year mS) (int (month mS)) (int d) 0) \<and>
           tv (mkDate (year mS) (int (month mS)) (int d) 0)
             \<le> tv (mkDate (year e) (int (month e)) (int (date e)) 0)"
proof -
  from assms have "d - 1 < length [1..<Suc dim]"
    by simp
  moreover from assms have "[1..<Suc dim] ! (d - 1) = d"
    using nth_upt [of 1 "d - 1" "Suc dim"] by simp
  ultimately show ?thesis
    unfolding task_cells_def by (simp only: nth_map Let_def td_cell.simps) simp
qed

lemma mkDate_strip:
  assumes "month s < 12" "1 \<le> date s" "date s \<le> month_len (year s) (month s)" "100 \<le> year s"
  shows "mkDate (year s) (int (month s)) (int (date s)) 0
           = \<lparr>year = year s, month = month s, date = date s, msec = 0\<rparr>"
  using assms mkDate_day [of "int (month s)" "int (date s)" "year s" 0]
  by (simp add: makeFullYear_def)

lemma clamp_cases:
  "clampIntervalToMonth a b c d = Some (s, e) \<Longrightarrow> (s = a \<or> s = c) \<and> (e = b \<or> e = d)"
  by (auto simp: clamp_eq split: if_splits)

lemma tv_midnight_le:
  "tv \<lparr>year = y1, month = m1, date = d1, msec = 0\<rparr> \<le> tv \<lparr>year = y2, month = m2, date = d2, msec = 0\<rparr>
     \<longleftrightarrow> (y1, m1, d1) \<le> (y2, m2, d2)"
  by (auto simp: tv_def)

text \<open>Within a month from the year 100 on, the cell of day \<open>d\<close> in the row of a task holds
  a bar exactly when the day lies between the task's start and end days.\<close>

lemma cell_marked:
  assumes k: "1200 \<le> k" and t: "valid_task t" and late: "100 \<le> year (n_start t)"
      and d: "1 \<le> d" "d \<le> month_len (k div 12) (nat (k mod 12))"
  shows "(\<exists>r. month_row shade (month_start k) t = Some r \<and> d \<le> length (row_cells r) \<and>
              td_bar (row_cells r ! (d - 1)) \<noteq> None)
         \<longleftrightarrow> day_of (n_start t) \<le> (k div 12, nat (k mod 12), d) \<and>
             (k div 12, nat (k mod 12), d) \<le> day_of (n_end t)"
proof -
  let ?y = "k div 12" and ?mo = "nat (k mod 12)"
  let ?dim = "month_len ?y ?mo"
  let ?mS = "month_start k"
  let ?mE = "\<lparr>year = ?y, month = ?mo, date = ?dim, msec = 86399999\<rparr>"
  let ?c = "(?y, ?mo, d)"
  have y: "100 \<le> ?y"
    using zdiv_mono1 [of 1200 k 12] k by simp
  have mo: "?mo < 12" by simp
  have mS: "startOfMonth ?mS = ?mS" and mE: "endOfMonth ?mS = ?mE"
    and dim: "daysInMonth (year ?mS) (int (month ?mS)) = ?dim"
    using k by (simp_all add: startOfMonth_month_start endOfMonth_month_start daysInMonth_month_start)
  have first: "day_of ?mS = (?y, ?mo, 1)" and last: "day_of ?mE = (?y, ?mo, ?dim)"
    by (simp_all add: day_of_def month_start_def)
  from d have in_month: "day_of ?mS \<le> ?c" "?c \<le> day_of ?mE"
    unfolding first last by simp_all
  from t have midnight: "msec (n_start t) = 0" "msec (n_end t) = 0"
    by (simp_all add: valid_task_def valid_day_def)
  have cl: "case clampIntervalToMonth (n_start t) (n_end t) ?mS ?mE of
           Some (segStart, segEnd) \<Rightarrow>
             day_of segStart = max (day_of (n_start t)) (day_of ?mS) \<and>
             day_of segEnd = min (day_of (n_end t)) (day_of ?mE) \<and>
             day_of segStart \<le> day_of segEnd
         | None \<Rightarrow> min (day_of (n_end t)) (day_of ?mE) < max (day_of (n_start t)) (day_of ?mS)"
    using midnight t by (intro clamp_days) (simp_all add: month_start_def valid_task_def)
  have row: "month_row shade ?mS t =
     (case clampIntervalToMonth (n_start t) (n_end t) ?mS ?mE of
        None \<Rightarrow> None
      | Some (segStart, segEnd) \<Rightarrow> Some (task_row shade ?mS ?dim t segStart segEnd))"
    by (simp only: month_row_eq mS mE dim)
  show ?thesis
  proof (cases "clampIntervalToMonth (n_start t) (n_end t) ?mS ?mE")
    case None
    with cl have lt: "min (day_of (n_end t)) (day_of ?mE) < max (day_of (n_start t)) (day_of ?mS)"
      by simp
    have "\<not> (day_of (n_start t) \<le> ?c \<and> ?c \<le> day_of (n_end t))"
    proof
      assume a: "day_of (n_start t) \<le> ?c \<and> ?c \<le> day_of (n_end t)"
      with in_month have "max (day_of (n_start t)) (day_of ?mS) \<le> ?c"
        "?c \<le> min (day_of (n_end t)) (day_of ?mE)"
        by (simp_all only: max.bounded_iff min.bounded_iff)
      then have "max (day_of (n_start t)) (day_of ?mS) \<le> min (day_of (n_end t)) (day_of ?mE)"
        by (rule order_trans)
      with lt show False by (rule less_le_not_le [THEN iffD1, THEN conjunct2, THEN notE])
    qed
    moreover from None row have "month_row shade ?mS t = None" by simp
    ultimately show ?thesis by simp
  next
    case (Some se)
    obtain s e where se: "se = (s, e)" by (cases se)
    from cl Some se have s: "day_of s = max (day_of (n_start t)) (day_of ?mS)"
      and e: "day_of e = min (day_of (n_end t)) (day_of ?mE)"
      by simp_all
    from clamp_cases Some se have which: "s = n_start t \<or> s = ?mS" "e = n_end t \<or> e = ?mE"
      by blast+
    from t late have "100 \<le> year (n_end t)"
      using tv_le_year [of "n_start t" "n_end t"] by (simp add: valid_task_def)
    have len: "1 \<le> ?dim" by (simp add: month_len_def)
    have "month s < 12 \<and> 1 \<le> date s \<and> date s \<le> month_len (year s) (month s) \<and> 100 \<le> year s"
    proof (cases "s = n_start t")
      case True
      with t late show ?thesis by (simp add: valid_task_def valid_day_def)
    next
      case False
      with which(1) have "s = ?mS" by blast
      with y len show ?thesis by (simp add: month_start_def)
    qed
    then have strip_s: "mkDate (year s) (int (month s)) (int (date s)) 0
                   = \<lparr>year = year s, month = month s, date = date s, msec = 0\<rparr>"
      by (intro mkDate_strip) blast+
    have "month e < 12 \<and> 1 \<le> date e \<and> date e \<le> month_len (year e) (month e) \<and> 100 \<le> year e"
    proof (cases "e = n_end t")
      case True
      with t \<open>100 \<le> year (n_end t)\<close> show ?thesis by (simp add: valid_task_def valid_day_def)
    next
      case False
      with which(2) have "e = ?mE" by blast
      with y len show ?thesis by simp
    qed
    then have strip_e: "mkDate (year e) (int (month e)) (int (date e)) 0
                   = \<lparr>year = year e, month = month e, date = date e, msec = 0\<rparr>"
      by (intro mkDate_strip) blast+
    from y d have cur: "mkDate (year ?mS) (int (month ?mS)) (int d) 0
                          = \<lparr>year = ?y, month = ?mo, date = d, msec = 0\<rparr>"
      using mkDate_day [of "int ?mo" "int d" ?y 0]
      by (simp add: month_start_def makeFullYear_def)
    from Some se row have r: "month_row shade ?mS t = Some (task_row shade ?mS ?dim t s e)"
      by simp
    have cells: "row_cells (task_row shade ?mS ?dim t s e) = task_cells shade (n_color t) ?mS ?dim s e"
      by (simp add: task_row_def)
    have "td_bar (row_cells (task_row shade ?mS ?dim t s e) ! (d - 1)) \<noteq> None
            \<longleftrightarrow> day_of s \<le> ?c \<and> ?c \<le> day_of e"
      unfolding cells nth_task_cells [OF d] strip_s strip_e cur tv_midnight_le day_of_def ..
    also have "\<dots> \<longleftrightarrow> (day_of (n_start t) \<le> ?c \<and> day_of ?mS \<le> ?c) \<and>
                         (?c \<le> day_of (n_end t) \<and> ?c \<le> day_of ?mE)"
      unfolding s e by (simp only: max.bounded_iff min.bounded_iff)
    also have "\<dots> \<longleftrightarrow> day_of (n_start t) \<le> ?c \<and> ?c \<le> day_of (n_end t)"
      using in_month by blast
    finally have bar: "td_bar (row_cells (task_row shade ?mS ?dim t s e) ! (d - 1)) \<noteq> None
            \<longleftrightarrow> day_of (n_start t) \<le> ?c \<and> ?c \<le> day_of (n_end t)" .
    have "d \<le> length (row_cells (task_row shade ?mS ?dim t s e))"
      unfolding cells length_task_cells by (rule d(2))
    with bar have "(\<exists>r. Some (task_row shade ?mS ?dim t s e) = Some r \<and> d \<le> length (row_cells r) \<and>
              td_bar (row_cells r ! (d - 1)) \<noteq> None)
         \<longleftrightarrow> day_of (n_start t) \<le> ?c \<and> ?c \<le> day_of (n_end t)"
      by blast
    then show ?thesis
      unfolding r .
  qed
qed

lemma month_row_length:
  "1200 \<le> k \<Longrightarrow> month_row shade (month_start k) t = Some r \<Longrightarrow>
   length (row_cells r) = month_len (k div 12) (nat (k mod 12))"
  by (auto simp: month_row_eq task_row_def length_task_cells daysInMonth_month_start
                 startOfMonth_month_start
           split: option.splits)

lemma day_le_month_no:
  "month a < 12 \<Longrightarrow> mo < 12 \<Longrightarrow> day_of a \<le> (y, mo, d) \<Longrightarrow> month_no a \<le> y * 12 + int mo"
  by (auto simp: day_of_def month_no_def)

lemma month_no_le_day:
  "month b < 12 \<Longrightarrow> mo < 12 \<Longrightarrow> (y, mo, d) \<le> day_of b \<Longrightarrow> y * 12 + int mo \<le> month_no b"
  by (auto simp: day_of_def month_no_def)

lemma map_filter_member:
  "t \<in> set xs \<Longrightarrow> f t = Some r \<Longrightarrow> r \<in> set (List.map_filter f xs)"
  by (induction xs) (auto split: option.splits)

text \<open>
  For task lists whose dates are calendar days that \<open>iso_date\<close> reads, all from the
  year 100 on: a calendar day is marked for a task in the returned root exactly when it
  lies between the task's start and end days.
\<close>

theorem marked_days_late:
  assumes ret: "renderGanttAsTables eng doc tasks opts = (Inr root, doc')"
      and norm: "normalize eng (color_of opts) 0 tasks = Inr norm"
      and iso: "list_all iso_task tasks"
      and late: "\<forall>t\<in>set norm. 100 \<le> year (n_start t)"
      and t: "t \<in> set norm"
      and c: "mo < 12" "1 \<le> d" "d \<le> month_len y mo"
  shows "marked (shade_of opts) root t (y, mo, d) \<longleftrightarrow>
           day_of (n_start t) \<le> (y, mo, d) \<and> (y, mo, d) \<le> day_of (n_end t)"
proof -
  let ?sh = "shade_of opts"
  let ?k = "y * 12 + int mo"
  let ?P = "\<lambda>k. List.map_filter (month_row ?sh (month_start k)) norm \<noteq> []"
  from render_returns [OF ret] norm have root: "root = grids ?sh norm" and ne: "norm \<noteq> []"
    by auto
  from grids_late [OF norm ne late iso, of ?sh] obtain mn mx where
    mn: "mn \<in> n_start ` set norm" "\<forall>t\<in>set norm. tv mn \<le> tv (n_start t)"
    and mx: "mx \<in> n_end ` set norm" "\<forall>t\<in>set norm. tv (n_end t) \<le> tv mx"
    and a: "1200 \<le> month_no mn"
    and G: "grids ?sh norm = map (\<lambda>k. section_of ?sh norm (month_start k))
                               (filter ?P [month_no mn..month_no mx])"
    by blast
  have vt: "valid_task t" using normalize_valid [OF norm iso t] .
  from t late have lt: "100 \<le> year (n_start t)" by blast
  have hk: "?k div 12 = y" "nat (?k mod 12) = mo"
    using heading_of_month [OF c(1)] by simp_all
  show ?thesis
  proof
    assume "marked ?sh root t (y, mo, d)"
    then have "\<exists>s\<in>set root. heading s = (y, mo) \<and>
          (\<exists>r\<in>set (tbody s).
             month_row ?sh (month_start ?k) t = Some r \<and>
             1 \<le> d \<and> d \<le> length (row_cells r) \<and>
             td_bar (row_cells r ! (d - 1)) \<noteq> None)"
      by (simp only: marked_def prod.case)
    then obtain s r where s: "s \<in> set root" "heading s = (y, mo)"
      and r: "month_row ?sh (month_start ?k) t = Some r" "d \<le> length (row_cells r)"
             "td_bar (row_cells r ! (d - 1)) \<noteq> None"
      by (elim bexE conjE)
    from s(1) obtain k' where k': "month_no mn \<le> k'" "s = section_of ?sh norm (month_start k')"
      unfolding root G by auto
    from k'(1) a have "1200 \<le> k'" by simp
    with s(2) k'(2) have "k' div 12 = y" "nat (k' mod 12) = mo"
      by (simp_all add: heading_section_late)
    then have "k' = ?k" by (rule month_of_heading)
    with \<open>1200 \<le> k'\<close> have k: "1200 \<le> ?k" by simp
    have c3: "d \<le> month_len (?k div 12) (nat (?k mod 12))"
      unfolding hk by (rule c(3))
    note cm = cell_marked [OF k vt lt c(2) c3, of ?sh, unfolded hk]
    from r have "\<exists>r. month_row ?sh (month_start ?k) t = Some r \<and> d \<le> length (row_cells r) \<and>
              td_bar (row_cells r ! (d - 1)) \<noteq> None"
      by (intro exI [of _ r] conjI)
    then show "day_of (n_start t) \<le> (y, mo, d) \<and> (y, mo, d) \<le> day_of (n_end t)"
      by (rule cm [THEN iffD1])
  next
    assume range: "day_of (n_start t) \<le> (y, mo, d) \<and> (y, mo, d) \<le> day_of (n_end t)"
    from mn(1) obtain t1 where t1: "t1 \<in> set norm" "mn = n_start t1" by blast
    from mx(1) obtain t2 where t2: "t2 \<in> set norm" "mx = n_end t2" by blast
    from normalize_valid [OF norm iso] t1 t2 have "valid_task t1" "valid_task t2" by blast+
    with t1 t2 vt have m: "month mn < 12" "month mx < 12" "month (n_start t) < 12" "month (n_end t) < 12"
      by (simp_all add: valid_task_def valid_day_def)
    from mn(2) t have "month_no mn \<le> month_no (n_start t)"
      using tv_le_month_no [OF m(1,3)] by blast
    also from range have "\<dots> \<le> ?k"
      using day_le_month_no [OF m(3) c(1)] by blast
    finally have lo: "month_no mn \<le> ?k" .
    from range have "?k \<le> month_no (n_end t)"
      using month_no_le_day [OF m(4) c(1)] by blast
    also from mx(2) t have "\<dots> \<le> month_no mx"
      using tv_le_month_no [OF m(4,2)] by blast
    finally have hi: "?k \<le> month_no mx" .
    from lo a have k: "1200 \<le> ?k" by simp
    have c3: "d \<le> month_len (?k div 12) (nat (?k mod 12))"
      unfolding hk by (rule c(3))
    note cm = cell_marked [OF k vt lt c(2) c3, of ?sh, unfolded hk]
    from range have "\<exists>r. month_row ?sh (month_start ?k) t = Some r \<and> d \<le> length (row_cells r) \<and>
              td_bar (row_cells r ! (d - 1)) \<noteq> None"
      by (rule cm [THEN iffD2])
    then obtain r where
      r: "month_row ?sh (month_start ?k) t = Some r" "d \<le> length (row_cells r)"
         "td_bar (row_cells r ! (d - 1)) \<noteq> None"
      by (elim exE conjE)
    from map_filter_member [of t norm "month_row ?sh (month_start ?k)" r, OF t r(1)]
    have mem: "r \<in> set (List.map_filter (month_row ?sh (month_start ?k)) norm)" .
    then have "?P ?k" by auto
    with lo hi have "section_of ?sh norm (month_start ?k) \<in> set root"
      unfolding root G by simp
    moreover have "heading (section_of ?sh norm (month_start ?k)) = (y, mo)"
      using heading_section_late [OF k] hk by simp
    moreover have "r \<in> set (tbody (section_of ?sh norm (month_start ?k)))"
      using mem by (simp only: tbody_section)
    ultimately have "\<exists>s\<in>set root. heading s = (y, mo) \<and>
          (\<exists>r\<in>set (tbody s).
             month_row ?sh (month_start ?k) t = Some r \<and>
             1 \<le> d \<and> d \<le> length (row_cells r) \<and>
             td_bar (row_cells r ! (d - 1)) \<noteq> None)"
      using r c(2) by (intro bexI [of _ "section_of ?sh norm (month_start ?k)"] conjI bexI [of _ r])
    then show "marked ?sh root t (y, mo, d)"
      by (simp only: marked_def prod.case)
  qed
qed

text \<open>Under the same condition no two sections of the root are headed by the same
  month, so no day is marked in more than one grid.\<close>

theorem headings_distinct_late:
  assumes ret: "renderGanttAsTables eng doc tasks opts = (Inr root, doc')"
      and norm: "normalize eng (color_of opts) 0 tasks = Inr norm"
      and iso: "list_all iso_task tasks"
      and late: "\<forall>t\<in>set norm. 100 \<le> year (n_start t)"
  shows "distinct (map heading root)"
proof -
  let ?sh = "shade_of opts"
  let ?P = "\<lambda>k. List.map_filter (month_row ?sh (month_start k)) norm \<noteq> []"
  from render_returns [OF ret] norm have root: "root = grids ?sh norm" and ne: "norm \<noteq> []"
    by auto
  from grids_late [OF norm ne late iso, of ?sh] obtain mn mx where
    "mn \<in> n_start ` set norm" "\<forall>t\<in>set norm. tv mn \<le> tv (n_start t)"
    "mx \<in> n_end ` set norm" "\<forall>t\<in>set norm. tv (n_end t) \<le> tv mx"
    and a: "1200 \<le> month_no mn"
    and G: "grids ?sh norm = map (\<lambda>k. section_of ?sh norm (month_start k))
                               (filter ?P [month_no mn..month_no mx])"
    by blast
  let ?ks = "filter ?P [month_no mn..month_no mx]"
  have ks: "\<forall>k\<in>set ?ks. 1200 \<le> k" using a by simp
  then have "map heading root = map (\<lambda>k. (k div 12, nat (k mod 12))) ?ks"
    unfolding root G map_map comp_def
    by (intro map_cong refl heading_section_late) blast
  moreover have "inj_on (\<lambda>k. (k div 12, nat (k mod 12))) (set ?ks)"
  proof (rule inj_onI)
    fix j k :: int
    assume "(j div 12, nat (j mod 12)) = (k div 12, nat (k mod 12))"
    then have "j div 12 = k div 12" "nat (j mod 12) = nat (k mod 12)" by simp_all
    then have j: "j = k div 12 * 12 + int (nat (k mod 12))"
      by (rule month_of_heading)
    have k: "k = k div 12 * 12 + int (nat (k mod 12))"
      by (rule month_of_heading) (rule refl)+
    show "j = k" by (rule trans [OF j k [symmetric]])
  qed
  moreover have "distinct ?ks" by simp
  ultimately show ?thesis
    by (simp only: distinct_map)
qed

lemma row_intersects:
  assumes k: "1200 \<le> k" and t: "valid_task t"
      and row: "month_row shade (month_start k) t = Some r"
  shows "day_of (n_start t) \<le> (k div 12, nat (k mod 12), month_len (k div 12) (nat (k mod 12)))"
    and "(k div 12, nat (k mod 12), 1) \<le> day_of (n_end t)"
proof -
  let ?mS = "month_start k"
  let ?mE = "\<lparr>year = k div 12, month = nat (k mod 12),
              date = month_len (k div 12) (nat (k mod 12)), msec = 86399999\<rparr>"
  have mS: "startOfMonth ?mS = ?mS" and mE: "endOfMonth ?mS = ?mE"
    using k by (simp_all add: startOfMonth_month_start endOfMonth_month_start)
  from t have midnight: "msec (n_start t) = 0" "msec (n_end t) = 0"
    by (simp_all add: valid_task_def valid_day_def)
  have cl: "case clampIntervalToMonth (n_start t) (n_end t) ?mS ?mE of
           Some (segStart, segEnd) \<Rightarrow>
             day_of segStart = max (day_of (n_start t)) (day_of ?mS) \<and>
             day_of segEnd = min (day_of (n_end t)) (day_of ?mE) \<and>
             day_of segStart \<le> day_of segEnd
         | None \<Rightarrow> min (day_of (n_end t)) (day_of ?mE) < max (day_of (n_start t)) (day_of ?mS)"
    using midnight t by (intro clamp_days) (simp_all add: month_start_def valid_task_def)
  from row obtain s e where eq: "clampIntervalToMonth (n_start t) (n_end t) ?mS ?mE = Some (s, e)"
    unfolding month_row_eq mS mE by (auto split: option.splits)
  note cl' = cl [unfolded eq option.case prod.case]
  note e1 = cl' [THEN conjunct1] and e2 = cl' [THEN conjunct2, THEN conjunct1]
    and le = cl' [THEN conjunct2, THEN conjunct2]
  from le have "max (day_of (n_start t)) (day_of ?mS) \<le> min (day_of (n_end t)) (day_of ?mE)"
    unfolding e1 e2 .
  then have "day_of (n_start t) \<le> day_of ?mE" "day_of ?mS \<le> day_of (n_end t)"
    by (simp_all only: max.bounded_iff min.bounded_iff)
  then show "day_of (n_start t) \<le> (k div 12, nat (k mod 12), month_len (k div 12) (nat (k mod 12)))"
    and "(k div 12, nat (k mod 12), 1) \<le> day_of (n_end t)"
    by (simp_all add: day_of_def month_start_def)
qed

lemma same_month:
  fixes y ys :: int and mo ms ds dim :: nat
  assumes "(ys, ms, ds) \<le> (y, mo, dim)" "(y, mo, 1) \<le> (ys, ms, ds)"
  shows "ys = y \<and> ms = mo"
  using assms by auto

text \<open>
  For task lists whose dates are calendar days that \<open>iso_date\<close> reads, all from the
  year 100 on, a one-day task is marked on its day and on no other, and the sections
  that hold its row are those headed by the month of that day; there is one.
\<close>

theorem single_day_late:
  assumes ret: "renderGanttAsTables eng doc tasks opts = (Inr root, doc')"
      and norm: "normalize eng (color_of opts) 0 tasks = Inr norm"
      and iso: "list_all iso_task tasks"
      and late: "\<forall>t\<in>set norm. 100 \<le> year (n_start t)"
      and t: "t \<in> set norm" and single: "n_start t = n_end t"
  shows "marked (shade_of opts) root t (y, mo, d) \<longleftrightarrow> (y, mo, d) = day_of (n_start t)"
    and "\<exists>s\<in>set root. heading s = (year (n_start t), month (n_start t))"
    and "\<forall>s\<in>set root.
           (\<exists>r\<in>set (tbody s).
              month_row (shade_of opts)
                (month_start (fst (heading s) * 12 + int (snd (heading s)))) t = Some r)
           \<longrightarrow> heading s = (year (n_start t), month (n_start t))"
proof -
  let ?sh = "shade_of opts"
  let ?P = "\<lambda>k. List.map_filter (month_row ?sh (month_start k)) norm \<noteq> []"
  from render_returns [OF ret] norm have root: "root = grids ?sh norm" and ne: "norm \<noteq> []"
    by auto
  from grids_late [OF norm ne late iso, of ?sh] obtain mn mx where
    "mn \<in> n_start ` set norm" "\<forall>t\<in>set norm. tv mn \<le> tv (n_start t)"
    "mx \<in> n_end ` set norm" "\<forall>t\<in>set norm. tv (n_end t) \<le> tv mx"
    and a: "1200 \<le> month_no mn"
    and G: "grids ?sh norm = map (\<lambda>k. section_of ?sh norm (month_start k))
                               (filter ?P [month_no mn..month_no mx])"
    by blast
  have vt: "valid_task t" using normalize_valid [OF norm iso t] .
  then have day: "month (n_start t) < 12" "1 \<le> date (n_start t)"
    "date (n_start t) \<le> month_len (year (n_start t)) (month (n_start t))"
    by (simp_all add: valid_task_def valid_day_def)
  note on_day = marked_days_late [OF ret norm iso late t day, unfolded single [symmetric]]
  have start: "day_of (n_start t) = (year (n_start t), month (n_start t), date (n_start t))"
    by (simp add: day_of_def)
  from on_day have m0: "marked ?sh root t (day_of (n_start t))"
    unfolding start by simp
  have in_root: "s \<in> set root \<Longrightarrow>
      \<exists>k. 1200 \<le> k \<and> s = section_of ?sh norm (month_start k) \<and>
          heading s = (k div 12, nat (k mod 12)) \<and>
          fst (heading s) * 12 + int (snd (heading s)) = k" for s
  proof -
    assume "s \<in> set root"
    then obtain k where k: "month_no mn \<le> k" "s = section_of ?sh norm (month_start k)"
      unfolding root G by auto
    with a have late_k: "1200 \<le> k" by simp
    with k(2) have h: "heading s = (k div 12, nat (k mod 12))"
      by (simp add: heading_section_late)
    have "k = k div 12 * 12 + int (nat (k mod 12))"
      by (rule month_of_heading) (rule refl)+
    with h have "fst (heading s) * 12 + int (snd (heading s)) = k" by simp
    with late_k k(2) h show ?thesis by blast
  qed
  have rows: "heading s = (year (n_start t), month (n_start t))"
    if s: "s \<in> set root" and r: "month_row ?sh
                (month_start (fst (heading s) * 12 + int (snd (heading s)))) t = Some r"
    for s r
  proof -
    from in_root [OF s] obtain k where k: "1200 \<le> k" "heading s = (k div 12, nat (k mod 12))"
      "fst (heading s) * 12 + int (snd (heading s)) = k"
      by blast
    from r k(3) have "month_row ?sh (month_start k) t = Some r" by simp
    from row_intersects [OF k(1) vt this]
    have "year (n_start t) = k div 12 \<and> month (n_start t) = nat (k mod 12)"
      unfolding single [symmetric] start by (rule same_month)
    with k(2) show ?thesis by simp
  qed
  show "marked ?sh root t (y, mo, d) \<longleftrightarrow> (y, mo, d) = day_of (n_start t)"
  proof
    assume "(y, mo, d) = day_of (n_start t)"
    with m0 show "marked ?sh root t (y, mo, d)" by simp
  next
    assume m: "marked ?sh root t (y, mo, d)"
    then have "\<exists>s\<in>set root. heading s = (y, mo) \<and>
          (\<exists>r\<in>set (tbody s).
             month_row ?sh (month_start (y * 12 + int mo)) t = Some r \<and>
             1 \<le> d \<and> d \<le> length (row_cells r) \<and>
             td_bar (row_cells r ! (d - 1)) \<noteq> None)"
      by (simp only: marked_def prod.case)
    then obtain s r where s: "s \<in> set root" "heading s = (y, mo)"
      and r: "month_row ?sh (month_start (y * 12 + int mo)) t = Some r"
             "1 \<le> d" "d \<le> length (row_cells r)"
      by (elim bexE conjE)
    from in_root [OF s(1)] obtain k where k0: "1200 \<le> k"
      "heading s = (k div 12, nat (k mod 12))"
      "fst (heading s) * 12 + int (snd (heading s)) = k"
      by blast
    from k0(2) s(2) have k: "k div 12 = y" "nat (k mod 12) = mo" by simp_all
    from k0(3) s(2) have kk: "y * 12 + int mo = k" by simp
    from k(2) have mo: "mo < 12" by auto
    from r(1) have "month_row ?sh (month_start k) t = Some r"
      unfolding kk .
    from month_row_length [OF k0(1) this] r(3) have "d \<le> month_len y mo"
      unfolding k by simp
    from marked_days_late [OF ret norm iso late t mo r(2) this] m
    have "day_of (n_start t) \<le> (y, mo, d)" "(y, mo, d) \<le> day_of (n_start t)"
      unfolding single [symmetric] by blast+
    then show "(y, mo, d) = day_of (n_start t)" by (rule order_antisym [symmetric])
  qed
  from m0 show "\<exists>s\<in>set root. heading s = (year (n_start t), month (n_start t))"
    unfolding start marked_def prod.case by (elim bexE conjE) (rule bexI)
  show "\<forall>s\<in>set root.
           (\<exists>r\<in>set (tbody s).
              month_row ?sh (month_start (fst (heading s) * 12 + int (snd (heading s)))) t = Some r)
           \<longrightarrow> heading s = (year (n_start t), month (n_start t))"
    using rows by blast
qed

end
